theory Spec2Isabelle
  imports Complex_Main
begin

section \<open>Data model\<close>

text \<open>
  The component keeps its state in React hooks and its durable data in a Firestore
  collection. A vote is one of the two string literals \<^verbatim>\<open>'true'\<close> and \<^verbatim>\<open>'false'\<close>;
  the counters are JavaScript numbers that only ever change by whole increments, so
  they are integers here.
\<close>

datatype vote = VTrue | VFalse

datatype schedule_type = Everyday | Specific_days

text \<open>The data of one document of the collection \<^verbatim>\<open>iftar_events\<close> (interface
  \<^verbatim>\<open>IftarEvent\<close> without its \<^verbatim>\<open>id\<close>, which is the document key).\<close>

record iftar_event =
  mosque_name :: string
  location :: string
  event_date :: "string option"
  description :: "string option"
  schedule_type :: schedule_type
  specific_days :: "string list option"
  true_votes :: int
  false_votes :: int

record timing_info =
  time :: string
  date :: string
  readableDate :: string

record timings_state =
  sahri :: "timing_info option"
  iftar :: "timing_info option"

text \<open>The hooks of \<^verbatim>\<open>App\<close> that the logic reads or writes. \<^verbatim>\<open>events\<close> pairs each
  document key with its data, in the order the snapshot delivered them.\<close>

record app =
  events :: "(string \<times> iftar_event) list"
  timings :: timings_state
  loadingTimings :: bool
  isAdmin :: bool
  adminPassword :: string
  currentPage :: int
  userVotes :: "string \<rightharpoonup> vote"

text \<open>The initial values given to \<^verbatim>\<open>useState\<close>.\<close>

definition initial_app :: app where
  "initial_app =
     \<lparr> events = [],
       timings = \<lparr> sahri = None, iftar = None \<rparr>,
       loadingTimings = True,
       isAdmin = False,
       adminPassword = ''admin123'',
       currentPage = 1,
       userVotes = Map.empty \<rparr>"

subsection \<open>The document store\<close>

text \<open>
  The store holds the event documents by key and the one settings document with the
  administrative password. A write either reaches the store or fails (the promise
  rejects); whether the service accepts a write is outside the program, so every
  writing operation takes that outcome as its first argument.
\<close>

record firestore =
  iftar_events :: "string \<rightharpoonup> iftar_event"
  admin_config :: "string option"

datatype store_error = Unavailable | Not_found

datatype counter_field = True_votes | False_votes

text \<open>The computed key \<^verbatim>\<open>type === 'true' ? 'true_votes' : 'false_votes'\<close>.\<close>

definition vote_field :: "vote \<Rightarrow> counter_field" where
  "vote_field t = (if t = VTrue then True_votes else False_votes)"

text \<open>
  The argument of \<^verbatim>\<open>updateDoc\<close> is an object literal whose values are
  \<^verbatim>\<open>increment(n)\<close>: the list of its entries in the order written. In an object literal
  a later entry with the same key replaces an earlier one; a field that is not named
  is left alone.
\<close>

type_synonym update_data = "(counter_field \<times> int) list"

definition increment_of :: "update_data \<Rightarrow> counter_field \<Rightarrow> int" where
  "increment_of upd k = (case map_of (rev upd) k of None \<Rightarrow> 0 | Some n \<Rightarrow> n)"

definition apply_update :: "update_data \<Rightarrow> iftar_event \<Rightarrow> iftar_event" where
  "apply_update upd e =
     e\<lparr> true_votes := true_votes e + increment_of upd True_votes,
        false_votes := false_votes e + increment_of upd False_votes \<rparr>"

text \<open>\<^verbatim>\<open>updateDoc\<close> rejects when the write does not reach the store and when the
  document does not exist.\<close>

definition updateDoc ::
  "bool \<Rightarrow> firestore \<Rightarrow> string \<Rightarrow> update_data \<Rightarrow> store_error + firestore" where
  "updateDoc ok fs eid upd =
     (if \<not> ok then Inl Unavailable
      else case iftar_events fs eid of
             None \<Rightarrow> Inl Not_found
           | Some e \<Rightarrow> Inr (fs\<lparr> iftar_events := (iftar_events fs)(eid \<mapsto> apply_update upd e) \<rparr>))"

section \<open>Vote reconciliation\<close>

text \<open>
  \<^verbatim>\<open>handleVote(id, type)\<close>. The three branches are those of the source, in its order:
  the same button again withdraws the vote, the other button changes it, and without
  a record the vote is new. The local record is written only after the store accepted
  the update; a rejected update is caught and logged, and nothing changes.
\<close>

definition handleVote ::
  "bool \<Rightarrow> firestore \<Rightarrow> app \<Rightarrow> string \<Rightarrow> vote \<Rightarrow> firestore \<times> app" where
  "handleVote ok fs st eid type =
     (let currentVote = userVotes st eid in
      if currentVote = Some type then
        (case updateDoc ok fs eid [(vote_field type, - 1)] of
           Inl err \<Rightarrow> (fs, st)
         | Inr fs' \<Rightarrow> (fs', st\<lparr> userVotes := (userVotes st)(eid := None) \<rparr>))
      else
        (case currentVote of
           Some cv \<Rightarrow>
             (case updateDoc ok fs eid [(vote_field cv, - 1), (vote_field type, 1)] of
                Inl err \<Rightarrow> (fs, st)
              | Inr fs' \<Rightarrow> (fs', st\<lparr> userVotes := (userVotes st)(eid \<mapsto> type) \<rparr>))
         | None \<Rightarrow>
             (case updateDoc ok fs eid [(vote_field type, 1)] of
                Inl err \<Rightarrow> (fs, st)
              | Inr fs' \<Rightarrow> (fs', st\<lparr> userVotes := (userVotes st)(eid \<mapsto> type) \<rparr>))))"

text \<open>The counter that belongs to a choice, and the other choice.\<close>

definition counter :: "vote \<Rightarrow> iftar_event \<Rightarrow> int" where
  "counter t e = (if t = VTrue then true_votes e else false_votes e)"

definition other :: "vote \<Rightarrow> vote" where
  "other t = (if t = VTrue then VFalse else VTrue)"

text \<open>A store with the single event \<^verbatim>\<open>E\<close> whose counters are 2 and 1, used in the
  examples below.\<close>

definition example_event :: iftar_event where
  "example_event =
     \<lparr> mosque_name = ''Boro Masjid'', location = ''Kushtia'', event_date = None,
       description = None, schedule_type = Everyday, specific_days = Some [],
       true_votes = 2, false_votes = 1 \<rparr>"

definition example_store :: firestore where
  "example_store =
     \<lparr> iftar_events = [''E'' \<mapsto> example_event], admin_config = Some ''admin123'' \<rparr>"

subsection \<open>Calls in flight\<close>

text \<open>
  \<^verbatim>\<open>handleVote\<close> is asynchronous. The click runs it up to \<^verbatim>\<open>await updateDoc(...)\<close>: it
  reads the record from the state of the render in which the button was drawn (its
  closure) and sends the update. What follows the \<^verbatim>\<open>await\<close>, the call of
  \<^verbatim>\<open>setUserVotes\<close> with a changed copy of the closure's record, runs when the promise
  resolves; when it rejects, nothing is set. The vote buttons stay enabled in between,
  so a page can have several calls in flight, all started from the same render.

  The first moment: the store after the update, and the argument that
  \<^verbatim>\<open>setUserVotes\<close> will get (\<open>None\<close> when the update is rejected). The branches are those
  of \<^verbatim>\<open>handleVote\<close>. The store applies the update when the call is issued; the
  increments of different calls commute, so their order in the store does not matter.
\<close>

definition handleVote_issue ::
  "bool \<Rightarrow> firestore \<Rightarrow> app \<Rightarrow> string \<Rightarrow> vote \<Rightarrow> firestore \<times> (string \<rightharpoonup> vote) option" where
  "handleVote_issue ok fs closure eid type =
     (let currentVote = userVotes closure eid in
      if currentVote = Some type then
        (case updateDoc ok fs eid [(vote_field type, - 1)] of
           Inl err \<Rightarrow> (fs, None)
         | Inr fs' \<Rightarrow> (fs', Some ((userVotes closure)(eid := None))))
      else
        (case currentVote of
           Some cv \<Rightarrow>
             (case updateDoc ok fs eid [(vote_field cv, - 1), (vote_field type, 1)] of
                Inl err \<Rightarrow> (fs, None)
              | Inr fs' \<Rightarrow> (fs', Some ((userVotes closure)(eid \<mapsto> type))))
         | None \<Rightarrow>
             (case updateDoc ok fs eid [(vote_field type, 1)] of
                Inl err \<Rightarrow> (fs, None)
              | Inr fs' \<Rightarrow> (fs', Some ((userVotes closure)(eid \<mapsto> type))))))"

text \<open>The second moment: the promise settles, and the page state of that moment gets
  the record, if there is one to set.\<close>

definition resolve :: "(string \<rightharpoonup> vote) option \<Rightarrow> app \<Rightarrow> app" where
  "resolve pending st = (case pending of None \<Rightarrow> st | Some uv \<Rightarrow> st\<lparr> userVotes := uv \<rparr>)"

text \<open>An open page: its hooks and its calls in flight, oldest first, each with the
  argument its \<^verbatim>\<open>setUserVotes\<close> is waiting to pass.\<close>

record page =
  hooks :: app
  inflight :: "(string \<rightharpoonup> vote) option list"

text \<open>What happens on a page as far as votes go: a click on a vote button of an event,
  with the outcome of its write, and the settling of one of the calls in flight.\<close>

datatype vote_action = Click string vote bool | Settle nat

fun perform :: "vote_action \<Rightarrow> firestore \<times> page \<Rightarrow> firestore \<times> page" where
  "perform (Click eid type ok) (fs, pg) =
     (case handleVote_issue ok fs (hooks pg) eid type of
        (fs', pending) \<Rightarrow> (fs', pg\<lparr> inflight := inflight pg @ [pending] \<rparr>))"
| "perform (Settle i) (fs, pg) =
     (if i < length (inflight pg)
      then (fs, \<lparr> hooks = resolve (inflight pg ! i) (hooks pg),
                 inflight = take i (inflight pg) @ drop (Suc i) (inflight pg) \<rparr>)
      else (fs, pg))"

text \<open>
  The schedule in which the user clicks on one event again and again and every call
  settles before the next click: the clicks with the outcomes of their writes.
\<close>

definition serial :: "string \<Rightarrow> (vote \<times> bool) list \<Rightarrow> vote_action list" where
  "serial eid cs = concat (map (\<lambda>(type, ok). [Click eid type ok, Settle 0]) cs)"

text \<open>The choices of the calls whose write the store accepted.\<close>

definition accepted :: "(vote \<times> bool) list \<Rightarrow> vote list" where
  "accepted cs = map fst (filter snd cs)"

text \<open>What one accepted call that has settled does to the record of its event.\<close>

definition toggle :: "vote \<Rightarrow> vote option \<Rightarrow> vote option" where
  "toggle c r = (if r = Some c then None else Some c)"

text \<open>
  The specification's reading of a click sequence, stated without reference to the
  program: the last choice stands unless it was toggled off. The sequence ends in a run
  of equal choices; within that run the clicks alternately cast and withdraw the
  choice, so it stands exactly when the run has odd length.
\<close>

definition standing_choice :: "vote list \<Rightarrow> vote option" where
  "standing_choice cs =
     (if cs = [] then None
      else if odd (length (takeWhile (\<lambda>c. c = last cs) (rev cs))) then Some (last cs)
      else None)"

text \<open>The share of a counter that a record accounts for: 1 when the record is that
  choice, 0 otherwise.\<close>

definition held :: "vote \<Rightarrow> vote option \<Rightarrow> int" where
  "held t r = (if r = Some t then 1 else 0)"

text \<open>A page just opened on a browser without a saved record.\<close>

definition example_page :: page where
  "example_page = \<lparr> hooks = initial_app, inflight = [] \<rparr>"

section \<open>Adding and deleting events\<close>

text \<open>
  The form of the add-event dialog (the hook \<^verbatim>\<open>newEvent\<close>); its fields carry the prefix
  \<open>new_\<close> because the document has fields of the same names.
\<close>

record new_event =
  new_mosque_name :: string
  new_location :: string
  new_date :: string
  new_description :: string
  new_schedule_type :: schedule_type
  new_specific_days :: "string list"

text \<open>
  The document that \<^verbatim>\<open>handleAddEvent\<close> builds: the form with both counters at 0, the
  empty optional fields deleted. (\<^verbatim>\<open>created_at\<close> only orders the snapshot and is left
  out.)
\<close>

definition eventData :: "new_event \<Rightarrow> iftar_event" where
  "eventData ne =
     \<lparr> mosque_name = new_mosque_name ne,
       location = new_location ne,
       event_date = (if new_date ne = [] then None else Some (new_date ne)),
       description = (if new_description ne = [] then None else Some (new_description ne)),
       schedule_type = new_schedule_type ne,
       specific_days = Some (new_specific_days ne),
       true_votes = 0,
       false_votes = 0 \<rparr>"

text \<open>\<^verbatim>\<open>addDoc\<close> stores the document under a key that the store generates; the key is
  an argument here.\<close>

definition addDoc :: "bool \<Rightarrow> string \<Rightarrow> firestore \<Rightarrow> iftar_event \<Rightarrow> store_error + firestore" where
  "addDoc ok newid fs d =
     (if \<not> ok then Inl Unavailable
      else Inr (fs\<lparr> iftar_events := (iftar_events fs)(newid \<mapsto> d) \<rparr>))"

text \<open>The effect of \<^verbatim>\<open>handleAddEvent\<close> on the store. Its other effects (the dialog, the
  form, the error line) are on hooks that no claim reads.\<close>

definition handleAddEvent :: "bool \<Rightarrow> bool \<Rightarrow> string \<Rightarrow> firestore \<Rightarrow> new_event \<Rightarrow> firestore" where
  "handleAddEvent isFirebaseConfigured ok newid fs newEvent =
     (if new_mosque_name newEvent = [] \<or> new_location newEvent = [] then fs
      else if \<not> isFirebaseConfigured then fs
      else case addDoc ok newid fs (eventData newEvent) of
             Inl err \<Rightarrow> fs
           | Inr fs' \<Rightarrow> fs')"

definition deleteDoc :: "bool \<Rightarrow> firestore \<Rightarrow> string \<Rightarrow> store_error + firestore" where
  "deleteDoc ok fs eid =
     (if \<not> ok then Inl Unavailable
      else Inr (fs\<lparr> iftar_events := (iftar_events fs)(eid := None) \<rparr>))"

text \<open>\<^verbatim>\<open>handleDelete\<close>; the first argument is the answer to \<^verbatim>\<open>window.confirm\<close>.\<close>

definition handleDelete :: "bool \<Rightarrow> bool \<Rightarrow> firestore \<Rightarrow> string \<Rightarrow> firestore" where
  "handleDelete confirmed ok fs eid =
     (if \<not> confirmed then fs
      else case deleteDoc ok fs eid of Inl err \<Rightarrow> fs | Inr fs' \<Rightarrow> fs')"

section \<open>The store, the browsers and their pages\<close>

text \<open>
  The counters live in the shared store. The vote record of a device lives in the
  local storage of its browser, under one key, and every page that the browser opens
  works on its own copy: the mount effect loads the saved record into \<^verbatim>\<open>userVotes\<close>
  (without a saved item the record stays empty), and the saving effect writes
  \<^verbatim>\<open>userVotes\<close> back whenever \<^verbatim>\<open>setUserVotes\<close> has replaced it.
\<close>

record browser =
  saved :: "string \<rightharpoonup> vote"
  tabs :: "page list"

text \<open>A state of the whole: the store, the browsers with their open pages, and the
  document keys that the store has generated so far.\<close>

record system =
  store :: firestore
  browsers :: "browser list"
  issued :: "string set"

definition start :: "string option \<Rightarrow> system" where
  "start pw =
     \<lparr> store = \<lparr> iftar_events = Map.empty, admin_config = pw \<rparr>, browsers = [], issued = {} \<rparr>"

text \<open>The page that a browser opens, after its mount effects.\<close>

definition mount :: "browser \<Rightarrow> page" where
  "mount br = \<lparr> hooks = initial_app\<lparr> userVotes := saved br \<rparr>, inflight = [] \<rparr>"

text \<open>The argument of \<^verbatim>\<open>setUserVotes\<close>, when the action calls it.\<close>

definition settled_record :: "vote_action \<Rightarrow> page \<Rightarrow> (string \<rightharpoonup> vote) option" where
  "settled_record a pg =
     (case a of
        Click eid type ok \<Rightarrow> None
      | Settle i \<Rightarrow> if i < length (inflight pg) then inflight pg ! i else None)"

definition has_tab :: "system \<Rightarrow> nat \<Rightarrow> nat \<Rightarrow> bool" where
  "has_tab s b k \<longleftrightarrow> b < length (browsers s) \<and> k < length (tabs (browsers s ! b))"

text \<open>
  What can happen, one thing at a time: a browser visits the site for the first time;
  a browser opens a page, or closes one (its calls in flight never settle then); a
  page takes a click on a vote button or sees one of its calls settle, and saves the
  record that was set; an event is added, under a key that the store has not
  generated before, or deleted; the password document is rewritten; a page runs any
  other handler, which leaves its vote record alone. An action on a browser or page
  that does not exist, and the reuse of a key, do not happen.
\<close>

datatype action =
    New_browser
  | Open nat
  | Close nat nat
  | Vote nat nat vote_action
  | Add bool bool string new_event
  | Delete bool bool string
  | Settings string
  | Other nat nat app

fun act :: "action \<Rightarrow> system \<Rightarrow> system" where
  "act New_browser s = s\<lparr> browsers := browsers s @ [\<lparr> saved = Map.empty, tabs = [] \<rparr>] \<rparr>"
| "act (Open b) s =
     (if b < length (browsers s)
      then s\<lparr> browsers := (browsers s)[b :=
               \<lparr> saved = saved (browsers s ! b),
                 tabs = tabs (browsers s ! b) @ [mount (browsers s ! b)] \<rparr>] \<rparr>
      else s)"
| "act (Close b k) s =
     (if has_tab s b k
      then s\<lparr> browsers := (browsers s)[b :=
               \<lparr> saved = saved (browsers s ! b),
                 tabs = take k (tabs (browsers s ! b)) @ drop (Suc k) (tabs (browsers s ! b)) \<rparr>] \<rparr>
      else s)"
| "act (Vote b k a) s =
     (if has_tab s b k
      then (case perform a (store s, tabs (browsers s ! b) ! k) of
              (fs', pg') \<Rightarrow>
                s\<lparr> store := fs',
                   browsers := (browsers s)[b :=
                     \<lparr> saved = (case settled_record a (tabs (browsers s ! b) ! k) of
                                  Some uv \<Rightarrow> uv
                                | None \<Rightarrow> saved (browsers s ! b)),
                       tabs = (tabs (browsers s ! b))[k := pg'] \<rparr>] \<rparr>)
      else s)"
| "act (Add cfg ok newid ne) s =
     (if newid \<in> issued s then s
      else s\<lparr> store := handleAddEvent cfg ok newid (store s) ne,
              issued := insert newid (issued s) \<rparr>)"
| "act (Delete confirmed ok eid) s = s\<lparr> store := handleDelete confirmed ok (store s) eid \<rparr>"
| "act (Settings pw) s = s\<lparr> store := (store s)\<lparr> admin_config := Some pw \<rparr> \<rparr>"
| "act (Other b k st) s =
     (if has_tab s b k \<and> userVotes st = userVotes (hooks (tabs (browsers s ! b) ! k))
      then s\<lparr> browsers := (browsers s)[b :=
               \<lparr> saved = saved (browsers s ! b),
                 tabs = (tabs (browsers s ! b))[k :=
                   \<lparr> hooks = st, inflight = inflight (tabs (browsers s ! b) ! k) \<rparr>] \<rparr>] \<rparr>
      else s)"

text \<open>
  The orderly use of the page, which the program does not enforce: a browser opens a
  page only while it has none open, so no two pages work on copies of one saved
  record; a vote button is clicked only while no call of the page is in flight; and a
  page is closed only while no call is in flight.
\<close>

fun allowed :: "action \<Rightarrow> system \<Rightarrow> bool" where
  "allowed (Open b) s = (b < length (browsers s) \<longrightarrow> tabs (browsers s ! b) = [])"
| "allowed (Close b k) s = (has_tab s b k \<longrightarrow> inflight (tabs (browsers s ! b) ! k) = [])"
| "allowed (Vote b k (Click eid type ok)) s =
     (has_tab s b k \<longrightarrow> inflight (tabs (browsers s ! b) ! k) = [])"
| "allowed a s = True"

fun orderly :: "action list \<Rightarrow> system \<Rightarrow> bool" where
  "orderly [] s = True"
| "orderly (a # as) s = (allowed a s \<and> orderly as (act a s))"

text \<open>Both counters of every event of a store are at least 0.\<close>

definition nonneg :: "firestore \<Rightarrow> bool" where
  "nonneg fs \<longleftrightarrow>
     (\<forall>eid e. iftar_events fs eid = Some e \<longrightarrow> 0 \<le> true_votes e \<and> 0 \<le> false_votes e)"

text \<open>
  The record that the writes of a browser amount to: the record its one page is
  waiting to set, when a call is in flight, and the saved record otherwise.
\<close>

definition effective :: "browser \<Rightarrow> (string \<rightharpoonup> vote)" where
  "effective br =
     (case tabs br of
        [pg] \<Rightarrow> (case inflight pg of [Some uv] \<Rightarrow> uv | _ \<Rightarrow> saved br)
      | _ \<Rightarrow> saved br)"

text \<open>The number of browsers whose record for an event is a given choice.\<close>

definition tally :: "vote \<Rightarrow> string \<Rightarrow> browser list \<Rightarrow> int" where
  "tally t eid brs = sum_list (map (\<lambda>br. held t (effective br eid)) brs)"

text \<open>A browser in orderly use: at most one page, at most one call in flight, and the
  page's record is the saved one.\<close>

definition tidy :: "browser \<Rightarrow> bool" where
  "tidy br \<longleftrightarrow>
     length (tabs br) \<le> 1 \<and>
     (\<forall>pg \<in> set (tabs br). length (inflight pg) \<le> 1 \<and> userVotes (hooks pg) = saved br)"

text \<open>
  The invariant of orderly use: every counter equals the number of browsers that
  record its choice, only generated keys occur, in the store and in the records, and
  every browser is tidy.
\<close>

definition backed :: "system \<Rightarrow> bool" where
  "backed s \<longleftrightarrow>
     (\<forall>eid e. iftar_events (store s) eid = Some e \<longrightarrow>
        true_votes e = tally VTrue eid (browsers s) \<and>
        false_votes e = tally VFalse eid (browsers s)) \<and>
     (\<forall>eid e. iftar_events (store s) eid = Some e \<longrightarrow> eid \<in> issued s) \<and>
     (\<forall>br \<in> set (browsers s). tidy br \<and>
        (\<forall>eid v. effective br eid = Some v \<longrightarrow> eid \<in> issued s))"

definition example_form :: new_event where
  "example_form =
     \<lparr> new_mosque_name = ''Boro Masjid'', new_location = ''Kushtia'', new_date = [],
       new_description = [], new_schedule_type = Everyday, new_specific_days = [] \<rparr>"

text \<open>A browser opens the page, the event \<open>E\<close> is added, the page votes true and the
  call settles.\<close>

definition example_visit :: "action list" where
  "example_visit =
     [New_browser, Open 0, Add True True ''E'' example_form,
      Vote 0 0 (Click ''E'' VTrue True), Vote 0 0 (Settle 0)]"

text \<open>After that visit the browser opens a second page, and the vote is withdrawn on
  both pages.\<close>

definition example_two_tabs :: "action list" where
  "example_two_tabs =
     example_visit @ [Open 0, Vote 0 0 (Click ''E'' VTrue True), Vote 0 1 (Click ''E'' VTrue True)]"

text \<open>After that visit the button is clicked twice before either call settles.\<close>

definition example_double_click :: "action list" where
  "example_double_click =
     example_visit @ [Vote 0 0 (Click ''E'' VTrue True), Vote 0 0 (Click ''E'' VTrue True)]"

text \<open>After that visit the vote is withdrawn and the page is closed before the call
  settles; the browser opens the page again and the vote is withdrawn once more.\<close>

definition example_closed_in_flight :: "action list" where
  "example_closed_in_flight =
     example_visit @
       [Vote 0 0 (Click ''E'' VTrue True), Close 0 0, Open 0, Vote 0 0 (Click ''E'' VTrue True)]"

section \<open>Prayer-time window\<close>

text \<open>
  What \<^verbatim>\<open>fetchTimings\<close> reads from one response of the time service:
  \<^verbatim>\<open>data.timings.Fajr\<close>, \<^verbatim>\<open>data.timings.Maghrib\<close> and \<^verbatim>\<open>data.date.readable\<close>.
\<close>

record day_data =
  Fajr :: string
  Maghrib :: string
  readable :: string

text \<open>
  The outcome of one \<^verbatim>\<open>fetch\<close>: the promise rejects (the service is unreachable), the
  body is not JSON (\<^verbatim>\<open>res.json()\<close> throws), or the body parses, with its \<^verbatim>\<open>code\<close> and
  its data. The data is \<open>None\<close> for a body without the member \<^verbatim>\<open>data\<close>, whose fields
  the success branch cannot read; a body with only some of the three fields is not
  represented.
\<close>

datatype fetch_result = Rejected | Not_json | Body int "day_data option"

datatype fetch_error = NetworkError | SyntaxError | TypeError

text \<open>
  A \<^verbatim>\<open>Date\<close> is its time value in milliseconds, or invalid (\<open>None\<close>). \<^verbatim>\<open>now > d\<close>
  compares the time values and is false for an invalid date.
\<close>

definition js_after :: "int \<Rightarrow> int option \<Rightarrow> bool" where
  "js_after now d = (case d of None \<Rightarrow> False | Some t \<Rightarrow> t < now)"

text \<open>
  The body of the success branch. \<^verbatim>\<open>parseTime(timeStr, today)\<close> puts a time of day on
  today's date; it is built from \<^verbatim>\<open>Number\<close> and \<^verbatim>\<open>Date.setHours\<close>, which are the
  platform's, so it is an argument: the instant for a time string, if it is one.
\<close>

definition finalTimings ::
  "(string \<Rightarrow> int option) \<Rightarrow> int \<Rightarrow> day_data \<Rightarrow> day_data \<Rightarrow> timings_state" where
  "finalTimings parseTime now today tomorrow =
     (let sahriToday = parseTime (Fajr today);
          iftarToday = parseTime (Maghrib today);
          finalSahri =
            (if js_after now sahriToday
             then \<lparr> time = Fajr tomorrow, date = readable tomorrow, readableDate = readable tomorrow \<rparr>
             else \<lparr> time = Fajr today, date = readable today, readableDate = readable today \<rparr>);
          finalIftar =
            (if js_after now iftarToday
             then \<lparr> time = Maghrib tomorrow, date = readable tomorrow, readableDate = readable tomorrow \<rparr>
             else \<lparr> time = Maghrib today, date = readable today, readableDate = readable today \<rparr>)
      in \<lparr> sahri = Some finalSahri, iftar = Some finalIftar \<rparr>)"

text \<open>
  The \<^verbatim>\<open>try\<close> block: an exception (\<open>Inl\<close>), no update because a code is not 200
  (\<open>Inr None\<close>), or the timings to set. \<^verbatim>\<open>Promise.all\<close> rejects when either fetch
  does; the bodies are then parsed, today's first; reading the fields of a body of
  the wrong shape throws.
\<close>

definition fetchTimings_try ::
  "(string \<Rightarrow> int option) \<Rightarrow> int \<Rightarrow> fetch_result \<Rightarrow> fetch_result \<Rightarrow>
     fetch_error + timings_state option" where
  "fetchTimings_try parseTime now resToday resTomorrow =
     (if resToday = Rejected \<or> resTomorrow = Rejected then Inl NetworkError
      else case resToday of
        Rejected \<Rightarrow> Inl NetworkError
      | Not_json \<Rightarrow> Inl SyntaxError
      | Body codeToday dataToday \<Rightarrow>
          (case resTomorrow of
             Rejected \<Rightarrow> Inl NetworkError
           | Not_json \<Rightarrow> Inl SyntaxError
           | Body codeTomorrow dataTomorrow \<Rightarrow>
               if codeToday = 200 \<and> codeTomorrow = 200 then
                 (case dataToday of
                    None \<Rightarrow> Inl TypeError
                  | Some today \<Rightarrow>
                      (case dataTomorrow of
                         None \<Rightarrow> Inl TypeError
                       | Some tomorrow \<Rightarrow>
                           Inr (Some (finalTimings parseTime now today tomorrow))))
               else Inr None))"

text \<open>\<^verbatim>\<open>fetchTimings\<close>, from \<^verbatim>\<open>setLoadingTimings(true)\<close> to the \<^verbatim>\<open>finally\<close> block.\<close>

definition fetchTimings ::
  "(string \<Rightarrow> int option) \<Rightarrow> int \<Rightarrow> fetch_result \<Rightarrow> fetch_result \<Rightarrow> app \<Rightarrow> app" where
  "fetchTimings parseTime now resToday resTomorrow st =
     (let st1 = st\<lparr> loadingTimings := True \<rparr>;
          st2 = (case fetchTimings_try parseTime now resToday resTomorrow of
                   Inr (Some t) \<Rightarrow> st1\<lparr> timings := t \<rparr>
                 | Inr None \<Rightarrow> st1
                 | Inl err \<Rightarrow> st1)
      in st2\<lparr> loadingTimings := False \<rparr>)"

text \<open>A fetch that did not deliver a day's times: unreachable, no JSON, a code other
  than 200, or no data of the expected shape.\<close>

fun failed :: "fetch_result \<Rightarrow> bool" where
  "failed Rejected = True"
| "failed Not_json = True"
| "failed (Body c d) = (c \<noteq> 200 \<or> d = None)"

text \<open>
  What the two cards show: \<^verbatim>\<open>...\<close> while loading, \<^verbatim>\<open>--:--\<close> or \<^verbatim>\<open>--\<close> without a value,
  otherwise the value (the time before \<^verbatim>\<open>format\<close> renders it).
\<close>

datatype cell = Dots | Dashes | Shown string

definition time_cell :: "bool \<Rightarrow> timing_info option \<Rightarrow> cell" where
  "time_cell loading t =
     (if loading then Dots else case t of Some i \<Rightarrow> Shown (time i) | None \<Rightarrow> Dashes)"

definition date_cell :: "bool \<Rightarrow> timing_info option \<Rightarrow> cell" where
  "date_cell loading t =
     (if loading then Dots
      else case t of
             None \<Rightarrow> Dashes
           | Some i \<Rightarrow> if date i = [] then Dashes else Shown (date i))"

definition display :: "app \<Rightarrow> cell \<times> cell \<times> cell \<times> cell" where
  "display st =
     (time_cell (loadingTimings st) (sahri (timings st)),
      date_cell (loadingTimings st) (sahri (timings st)),
      time_cell (loadingTimings st) (iftar (timings st)),
      date_cell (loadingTimings st) (iftar (timings st)))"

text \<open>Two days of times, with the instants of today's boundaries in milliseconds
  after today's midnight, and a page that shows them at a moment between the two
  boundaries.\<close>

definition example_today :: day_data where
  "example_today = \<lparr> Fajr = ''05:00'', Maghrib = ''18:10'', readable = ''01 Mar 2026'' \<rparr>"

definition example_tomorrow :: day_data where
  "example_tomorrow = \<lparr> Fajr = ''04:59'', Maghrib = ''18:11'', readable = ''02 Mar 2026'' \<rparr>"

definition example_parseTime :: "string \<Rightarrow> int option" where
  "example_parseTime s =
     (if s = ''05:00'' then Some 18000000 else if s = ''18:10'' then Some 65400000 else None)"

definition example_shown :: app where
  "example_shown =
     initial_app\<lparr> timings := finalTimings example_parseTime 30000000 example_today example_tomorrow,
                  loadingTimings := False \<rparr>"

section \<open>Pagination\<close>

definition itemsPerPage :: nat where
  "itemsPerPage = 6"

text \<open>
  \<^verbatim>\<open>Math.ceil(events.length / itemsPerPage)\<close>, as a function of the length. An array
  length is below \<open>2^32\<close>, where the rounded quotient by 6 has the ceiling of the exact
  one, so the division is the real one here.
\<close>

definition totalPages :: "nat \<Rightarrow> int" where
  "totalPages n = \<lceil>real n / real itemsPerPage\<rceil>"

text \<open>The effect that runs after every render in which the number of events or the
  current page changed.\<close>

definition clampPage :: "app \<Rightarrow> app" where
  "clampPage st =
     (let totalPages = totalPages (length (events st)) in
      if currentPage st > totalPages \<and> totalPages > 0
      then st\<lparr> currentPage := totalPages \<rparr> else st)"

text \<open>
  Everything that changes the list or the page: a snapshot replaces the list; the
  buttons \<^verbatim>\<open>Prev\<close>, \<^verbatim>\<open>Next\<close> and the numbered ones set the page. The buttons are
  rendered only when there is more than one page, \<^verbatim>\<open>Prev\<close> is disabled on page 1 and
  \<^verbatim>\<open>Next\<close> on the last page, and there is one numbered button for each index below
  \<^verbatim>\<open>totalPages\<close>; a click that the page does not offer does nothing.
\<close>

datatype page_event = Snapshot "(string \<times> iftar_event) list" | Prev | Next | Goto nat

fun handle :: "page_event \<Rightarrow> app \<Rightarrow> app" where
  "handle (Snapshot eventsData) st = st\<lparr> events := eventsData \<rparr>"
| "handle Prev st =
     (if totalPages (length (events st)) > 1 \<and> currentPage st \<noteq> 1
      then st\<lparr> currentPage := max (currentPage st - 1) 1 \<rparr> else st)"
| "handle Next st =
     (if totalPages (length (events st)) > 1 \<and>
         currentPage st \<noteq> totalPages (length (events st))
      then st\<lparr> currentPage := min (currentPage st + 1) (totalPages (length (events st))) \<rparr>
      else st)"
| "handle (Goto i) st =
     (if totalPages (length (events st)) > 1 \<and> int i < totalPages (length (events st))
      then st\<lparr> currentPage := int i + 1 \<rparr> else st)"

text \<open>One change followed by the effect, and a sequence of them.\<close>

definition step :: "page_event \<Rightarrow> app \<Rightarrow> app" where
  "step ev st = clampPage (handle ev st)"

fun run :: "page_event list \<Rightarrow> app \<Rightarrow> app" where
  "run [] st = st"
| "run (ev # evs) st = run evs (step ev st)"

text \<open>Thirteen events arrive, the viewer goes to page 3, all events disappear.\<close>

definition example_clicks :: "page_event list" where
  "example_clicks = [Snapshot (replicate 13 (''E'', example_event)), Goto 2, Snapshot []]"

section \<open>Administration\<close>

text \<open>
  \<^verbatim>\<open>toggleAdmin\<close>. The first argument is the answer to \<^verbatim>\<open>window.prompt\<close> (\<open>None\<close> when
  the prompt is cancelled); it is asked only when the page is not in admin mode. The
  result carries the messages passed to \<^verbatim>\<open>alert\<close>.
\<close>

definition toggleAdmin :: "string option \<Rightarrow> app \<Rightarrow> app \<times> string list" where
  "toggleAdmin pass st =
     (if isAdmin st then (st\<lparr> isAdmin := False \<rparr>, [])
      else if pass = Some (adminPassword st)
        then (st\<lparr> isAdmin := True \<rparr>, [''Admin Login Successful!''])
      else if pass \<noteq> None then (st, [''Incorrect password!''])
      else (st, []))"

text \<open>\<^verbatim>\<open>setDoc\<close> on the settings document.\<close>

definition setDoc :: "bool \<Rightarrow> firestore \<Rightarrow> string \<Rightarrow> store_error + firestore" where
  "setDoc ok fs password =
     (if \<not> ok then Inl Unavailable else Inr (fs\<lparr> admin_config := Some password \<rparr>))"

text \<open>
  \<^verbatim>\<open>handleChangePassword\<close>. The answers to the two prompts are arguments; the second
  prompt is shown only after a first answer that is neither cancelled nor empty.
\<close>

definition handleChangePassword ::
  "bool \<Rightarrow> string option \<Rightarrow> string option \<Rightarrow> firestore \<Rightarrow> app \<Rightarrow>
     firestore \<times> app \<times> string list" where
  "handleChangePassword ok newPass confirmPass fs st =
     (case newPass of
        None \<Rightarrow> (fs, st, [])
      | Some np \<Rightarrow>
          if np = [] then (fs, st, [])
          else if newPass \<noteq> confirmPass then (fs, st, [''Passwords do not match!''])
          else (case setDoc ok fs np of
                  Inr fs' \<Rightarrow>
                    (fs', st\<lparr> adminPassword := np \<rparr>, [''Password changed successfully!''])
                | Inl err \<Rightarrow>
                    (fs, st, [''Failed to change password. Check permissions.''])))"

section \<open>One vote\<close>

lemma handleVote_rejected: "handleVote False fs st eid type = (fs, st)"
  by (auto simp: handleVote_def updateDoc_def Let_def split: option.splits)

lemma handleVote_missing:
  "iftar_events fs eid = None \<Longrightarrow> handleVote ok fs st eid type = (fs, st)"
  by (auto simp: handleVote_def updateDoc_def Let_def split: option.splits)

lemma handleVote_new:
  assumes "iftar_events fs eid = Some e" and "userVotes st eid = None"
  shows "handleVote True fs st eid type =
     (fs\<lparr> iftar_events := (iftar_events fs)(eid \<mapsto> apply_update [(vote_field type, 1)] e) \<rparr>,
      st\<lparr> userVotes := (userVotes st)(eid \<mapsto> type) \<rparr>)"
  using assms by (simp add: handleVote_def updateDoc_def)

lemma handleVote_withdraw:
  assumes "iftar_events fs eid = Some e" and "userVotes st eid = Some type"
  shows "handleVote True fs st eid type =
     (fs\<lparr> iftar_events := (iftar_events fs)(eid \<mapsto> apply_update [(vote_field type, - 1)] e) \<rparr>,
      st\<lparr> userVotes := (userVotes st)(eid := None) \<rparr>)"
  using assms by (simp add: handleVote_def updateDoc_def)

lemma handleVote_switch:
  assumes "iftar_events fs eid = Some e" and "userVotes st eid = Some cv" and "cv \<noteq> type"
  shows "handleVote True fs st eid type =
     (fs\<lparr> iftar_events := (iftar_events fs)(eid \<mapsto>
            apply_update [(vote_field cv, - 1), (vote_field type, 1)] e) \<rparr>,
      st\<lparr> userVotes := (userVotes st)(eid \<mapsto> type) \<rparr>)"
  using assms by (simp add: handleVote_def updateDoc_def)

lemma counter_apply_single:
  "counter t (apply_update [(vote_field t, n)] e) = counter t e + n"
  "counter (other t) (apply_update [(vote_field t, n)] e) = counter (other t) e"
  by (cases t; simp add: counter_def other_def apply_update_def increment_of_def vote_field_def)+

lemma counter_apply_switch:
  assumes "cv \<noteq> t"
  shows "counter t (apply_update [(vote_field cv, - 1), (vote_field t, 1)] e) = counter t e + 1"
    and "counter cv (apply_update [(vote_field cv, - 1), (vote_field t, 1)] e) = counter cv e - 1"
  using assms
  by (cases t; cases cv;
      simp add: counter_def apply_update_def increment_of_def vote_field_def)+

text \<open>
  C1. One call of the vote operation on an event of the store, the write accepted,
  follows the device's recorded choice for that event. Without a record the counter of
  the choice grows by 1, the other counter stays, and the choice is recorded. With
  the same choice recorded the counter of the choice shrinks by 1, the other stays, and
  the record is removed. With the other choice recorded that choice's counter shrinks
  by 1, the counter of the new choice grows by 1, and the new choice is recorded. Other
  events and the records of other events are untouched.
\<close>

theorem handleVote_by_prior_choice:
  assumes "iftar_events fs eid = Some e"
  shows "\<exists>e'. iftar_events (fst (handleVote True fs st eid type)) eid = Some e' \<and>
     (case userVotes st eid of
        None \<Rightarrow>
          counter type e' = counter type e + 1 \<and>
          counter (other type) e' = counter (other type) e \<and>
          userVotes (snd (handleVote True fs st eid type)) eid = Some type
      | Some prior \<Rightarrow>
          if prior = type then
            counter type e' = counter type e - 1 \<and>
            counter (other type) e' = counter (other type) e \<and>
            userVotes (snd (handleVote True fs st eid type)) eid = None
          else
            counter prior e' = counter prior e - 1 \<and>
            counter type e' = counter type e + 1 \<and>
            userVotes (snd (handleVote True fs st eid type)) eid = Some type) \<and>
     (\<forall>x. x \<noteq> eid \<longrightarrow>
        iftar_events (fst (handleVote True fs st eid type)) x = iftar_events fs x \<and>
        userVotes (snd (handleVote True fs st eid type)) x = userVotes st x)"
proof (cases "userVotes st eid")
  case None
  show ?thesis
    by (simp add: handleVote_new [OF assms None] None counter_apply_single)
next
  case (Some prior)
  show ?thesis
  proof (cases "prior = type")
    case True
    with Some have rec: "userVotes st eid = Some type" by simp
    show ?thesis
      by (simp add: handleVote_withdraw [OF assms rec] rec counter_apply_single)
  next
    case False
    show ?thesis
      by (simp add: handleVote_switch [OF assms Some False] Some False
          counter_apply_switch [OF False])
  qed
qed

theorem handleVote_by_prior_choice_witness:
  "iftar_events example_store ''E'' = Some example_event \<and>
   (\<exists>e'. iftar_events (fst (handleVote True example_store initial_app ''E'' VFalse)) ''E'' = Some e' \<and>
      false_votes e' = 2 \<and> true_votes e' = 2 \<and>
      userVotes (snd (handleVote True example_store initial_app ''E'' VFalse)) ''E'' = Some VFalse)"
proof -
  have a: "iftar_events example_store ''E'' = Some example_event"
    by (simp add: example_store_def)
  have b: "userVotes initial_app ''E'' = None"
    by (simp add: initial_app_def)
  from handleVote_by_prior_choice [OF a, of initial_app VFalse] show ?thesis
    using a by (auto simp: b counter_def other_def example_event_def)
qed

section \<open>Sequences of votes\<close>

text \<open>Folding the effect of single calls over a click sequence gives the standing
  choice of the specification.\<close>

lemma fold_toggle_standing: "fold toggle cs None = standing_choice cs"
proof (induction cs rule: rev_induct)
  case Nil
  show ?case by (simp add: standing_choice_def)
next
  case (snoc c cs)
  show ?case
  proof (cases "cs = []")
    case True
    then show ?thesis by (simp add: standing_choice_def toggle_def)
  next
    case False
    show ?thesis
    proof (cases "last cs = c")
      case True
      with False snoc show ?thesis
        by (auto simp: standing_choice_def toggle_def)
    next
      case False
      from False \<open>cs \<noteq> []\<close> have "takeWhile (\<lambda>x. x = c) (rev cs) = []"
        by (simp add: takeWhile_eq_Nil_iff hd_rev)
      with False \<open>cs \<noteq> []\<close> snoc show ?thesis
        by (auto simp: standing_choice_def toggle_def)
    qed
  qed
qed

lemma handleVote_accepted_balance:
  assumes "iftar_events fs eid = Some e"
  shows "\<exists>e'. iftar_events (fst (handleVote True fs st eid type)) eid = Some e' \<and>
     true_votes e' - held VTrue (userVotes (snd (handleVote True fs st eid type)) eid) =
       true_votes e - held VTrue (userVotes st eid) \<and>
     false_votes e' - held VFalse (userVotes (snd (handleVote True fs st eid type)) eid) =
       false_votes e - held VFalse (userVotes st eid) \<and>
     userVotes (snd (handleVote True fs st eid type)) eid = toggle type (userVotes st eid)"
proof (cases "userVotes st eid")
  case None
  show ?thesis
    by (cases type; simp add: handleVote_new [OF assms None] None held_def toggle_def
        apply_update_def increment_of_def vote_field_def)
next
  case (Some prior)
  show ?thesis
  proof (cases "prior = type")
    case True
    with Some have rec: "userVotes st eid = Some type" by simp
    show ?thesis
      unfolding handleVote_withdraw [OF assms rec]
      by (cases type; simp add: rec held_def toggle_def
          apply_update_def increment_of_def vote_field_def)
  next
    case False
    then show ?thesis
      unfolding handleVote_switch [OF assms Some False]
      by (cases type; cases prior;
          simp add: Some held_def toggle_def
            apply_update_def increment_of_def vote_field_def)
  qed
qed

lemma handleVote_balance:
  assumes "iftar_events fs eid = Some e"
  shows "\<exists>e'. iftar_events (fst (handleVote ok fs st eid type)) eid = Some e' \<and>
     true_votes e' - held VTrue (userVotes (snd (handleVote ok fs st eid type)) eid) =
       true_votes e - held VTrue (userVotes st eid) \<and>
     false_votes e' - held VFalse (userVotes (snd (handleVote ok fs st eid type)) eid) =
       false_votes e - held VFalse (userVotes st eid) \<and>
     userVotes (snd (handleVote ok fs st eid type)) eid =
       (if ok then toggle type (userVotes st eid) else userVotes st eid)"
proof (cases ok)
  case False
  then have "handleVote ok fs st eid type = (fs, st)"
    by (simp add: handleVote_rejected)
  with assms False show ?thesis by simp
next
  case True
  then have "ok = True" by simp
  with handleVote_accepted_balance [OF assms, of st type] show ?thesis by simp
qed

text \<open>A call that settles before anything else happens on the page is the
  \<^verbatim>\<open>handleVote\<close> of one piece.\<close>

lemma handleVote_issue_resolve:
  "handleVote ok fs st eid type =
     (fst (handleVote_issue ok fs st eid type), resolve (snd (handleVote_issue ok fs st eid type)) st)"
  by (auto simp: handleVote_def handleVote_issue_def resolve_def Let_def
      split: option.splits sum.splits)

lemma settled_page: "inflight pg = [] \<Longrightarrow> \<lparr> hooks = h, inflight = [] \<rparr> = pg\<lparr> hooks := h \<rparr>"
  by (cases pg) simp

lemma click_then_settle:
  assumes "inflight pg = []"
  shows "perform (Settle 0) (perform (Click eid type ok) (fs, pg)) =
     (fst (handleVote ok fs (hooks pg) eid type),
      pg\<lparr> hooks := snd (handleVote ok fs (hooks pg) eid type) \<rparr>)"
  using assms
  by (simp add: handleVote_issue_resolve settled_page split: prod.splits)

lemma serial_Cons:
  "fold perform (serial eid ((type, ok) # cs)) x =
     fold perform (serial eid cs) (perform (Settle 0) (perform (Click eid type ok) x))"
  by (simp add: serial_def)

lemma serial_balance:
  assumes "iftar_events fs eid = Some e" and "inflight pg = []"
  shows "\<exists>e'. iftar_events (fst (fold perform (serial eid cs) (fs, pg))) eid = Some e' \<and>
     true_votes e' - held VTrue (userVotes (hooks (snd (fold perform (serial eid cs) (fs, pg)))) eid) =
       true_votes e - held VTrue (userVotes (hooks pg) eid) \<and>
     false_votes e' - held VFalse (userVotes (hooks (snd (fold perform (serial eid cs) (fs, pg)))) eid) =
       false_votes e - held VFalse (userVotes (hooks pg) eid) \<and>
     userVotes (hooks (snd (fold perform (serial eid cs) (fs, pg)))) eid =
       fold toggle (accepted cs) (userVotes (hooks pg) eid) \<and>
     inflight (snd (fold perform (serial eid cs) (fs, pg))) = []"
  using assms
proof (induction cs arbitrary: fs pg e)
  case Nil
  then show ?case by (simp add: accepted_def serial_def)
next
  case (Cons c cs)
  obtain type ok where c: "c = (type, ok)" by (cases c)
  let ?fs1 = "fst (handleVote ok fs (hooks pg) eid type)"
  let ?st1 = "snd (handleVote ok fs (hooks pg) eid type)"
  let ?pg1 = "pg\<lparr> hooks := ?st1 \<rparr>"
  have next_state: "fold perform (serial eid (c # cs)) (fs, pg) =
      fold perform (serial eid cs) (?fs1, ?pg1)"
    by (simp only: c serial_Cons click_then_settle [OF Cons.prems(2)])
  from handleVote_balance [OF Cons.prems(1), of ok "hooks pg" type]
  obtain e1 where e1: "iftar_events ?fs1 eid = Some e1"
    and t1: "true_votes e1 - held VTrue (userVotes ?st1 eid) =
       true_votes e - held VTrue (userVotes (hooks pg) eid)"
    and f1: "false_votes e1 - held VFalse (userVotes ?st1 eid) =
       false_votes e - held VFalse (userVotes (hooks pg) eid)"
    and r1: "userVotes ?st1 eid =
       (if ok then toggle type (userVotes (hooks pg) eid) else userVotes (hooks pg) eid)"
    by blast
  have idle: "inflight ?pg1 = []"
    using Cons.prems(2) by simp
  from Cons.IH [OF e1 idle] obtain e' where
    "iftar_events (fst (fold perform (serial eid cs) (?fs1, ?pg1))) eid = Some e'"
    "true_votes e' - held VTrue (userVotes (hooks (snd (fold perform (serial eid cs) (?fs1, ?pg1)))) eid) =
       true_votes e1 - held VTrue (userVotes (hooks ?pg1) eid)"
    "false_votes e' - held VFalse (userVotes (hooks (snd (fold perform (serial eid cs) (?fs1, ?pg1)))) eid) =
       false_votes e1 - held VFalse (userVotes (hooks ?pg1) eid)"
    "userVotes (hooks (snd (fold perform (serial eid cs) (?fs1, ?pg1)))) eid =
       fold toggle (accepted cs) (userVotes (hooks ?pg1) eid)"
    "inflight (snd (fold perform (serial eid cs) (?fs1, ?pg1))) = []"
    by blast
  with t1 f1 r1 show ?case
    unfolding next_state by (simp add: c accepted_def)
qed

lemma serial_two:
  assumes "inflight pg = []"
  shows "fold perform (serial eid [(t1, ok1), (t2, ok2)]) (fs, pg) =
     (fst (handleVote ok2 (fst (handleVote ok1 fs (hooks pg) eid t1))
             (snd (handleVote ok1 fs (hooks pg) eid t1)) eid t2),
      pg\<lparr> hooks := snd (handleVote ok2 (fst (handleVote ok1 fs (hooks pg) eid t1))
             (snd (handleVote ok1 fs (hooks pg) eid t1)) eid t2) \<rparr>)"
proof -
  have idle: "inflight (pg\<lparr> hooks := snd (handleVote ok1 fs (hooks pg) eid t1) \<rparr>) = []"
    using assms by simp
  show ?thesis
    unfolding serial_Cons click_then_settle [OF assms] click_then_settle [OF idle]
    by (simp add: serial_def)
qed

lemma serial_one:
  assumes "inflight pg = []"
  shows "fold perform (serial eid [(t1, ok1)]) (fs, pg) =
     (fst (handleVote ok1 fs (hooks pg) eid t1), pg\<lparr> hooks := snd (handleVote ok1 fs (hooks pg) eid t1) \<rparr>)"
  unfolding serial_Cons click_then_settle [OF assms] by (simp add: serial_def)

lemma example_page_idle: "inflight example_page = []"
  by (simp add: example_page_def)

lemma example_page_no_record: "userVotes (hooks example_page) ''E'' = None"
  by (simp add: example_page_def initial_app_def)

lemma example_store_E: "iftar_events example_store ''E'' = Some example_event"
  by (simp add: example_store_def)

text \<open>
  C2, as amended. For every sequence of vote calls issued from one page on one event
  of the store, each call issued after the one before it has settled, started without
  a local record: afterwards the record is the last accepted choice unless that choice
  was toggled off, in which case there is none; each counter differs from its value
  before the sequence by the share the record accounts for, so the difference lies in
  \<open>{-1, 0, 1}\<close>, and either exactly one counter is up by 1 or both are where they were.
  Calls whose write was rejected change nothing.
\<close>

theorem serial_votes_net_effect:
  assumes "iftar_events fs eid = Some e" and "userVotes (hooks pg) eid = None"
    and "inflight pg = []"
  shows "\<exists>e'. iftar_events (fst (fold perform (serial eid cs) (fs, pg))) eid = Some e' \<and>
     userVotes (hooks (snd (fold perform (serial eid cs) (fs, pg)))) eid =
       standing_choice (accepted cs) \<and>
     true_votes e' - true_votes e = held VTrue (standing_choice (accepted cs)) \<and>
     false_votes e' - false_votes e = held VFalse (standing_choice (accepted cs)) \<and>
     true_votes e' - true_votes e \<in> {- 1, 0, 1} \<and>
     false_votes e' - false_votes e \<in> {- 1, 0, 1} \<and>
     (true_votes e' = true_votes e + 1 \<and> false_votes e' = false_votes e \<or>
      true_votes e' = true_votes e \<and> false_votes e' = false_votes e + 1 \<or>
      true_votes e' = true_votes e \<and> false_votes e' = false_votes e)"
proof -
  let ?r = "fold perform (serial eid cs) (fs, pg)"
  from serial_balance [OF assms(1) assms(3), of cs] obtain e' where
    ev: "iftar_events (fst ?r) eid = Some e'"
    and tv: "true_votes e' - held VTrue (userVotes (hooks (snd ?r)) eid) =
       true_votes e - held VTrue (userVotes (hooks pg) eid)"
    and fv: "false_votes e' - held VFalse (userVotes (hooks (snd ?r)) eid) =
       false_votes e - held VFalse (userVotes (hooks pg) eid)"
    and rc: "userVotes (hooks (snd ?r)) eid = fold toggle (accepted cs) (userVotes (hooks pg) eid)"
    by blast
  from rc assms(2) have rc': "userVotes (hooks (snd ?r)) eid = standing_choice (accepted cs)"
    by (simp add: fold_toggle_standing)
  from tv rc' assms(2)
  have tv': "true_votes e' - true_votes e = held VTrue (standing_choice (accepted cs))"
    by (simp add: held_def split: if_splits)
  from fv rc' assms(2)
  have fv': "false_votes e' - false_votes e = held VFalse (standing_choice (accepted cs))"
    by (simp add: held_def split: if_splits)
  have "true_votes e' - true_votes e \<in> {- 1, 0, 1}" "false_votes e' - false_votes e \<in> {- 1, 0, 1}"
    using tv' fv' by (simp_all add: held_def)
  moreover have "true_votes e' = true_votes e + 1 \<and> false_votes e' = false_votes e \<or>
      true_votes e' = true_votes e \<and> false_votes e' = false_votes e + 1 \<or>
      true_votes e' = true_votes e \<and> false_votes e' = false_votes e"
    using tv' fv' by (auto simp: held_def split: if_splits)
  ultimately show ?thesis using ev rc' tv' fv' by blast
qed

theorem serial_votes_net_effect_witness:
  "iftar_events example_store ''E'' = Some example_event \<and>
   userVotes (hooks example_page) ''E'' = None \<and>
   inflight example_page = [] \<and>
   (\<exists>e'. iftar_events (fst (fold perform (serial ''E''
            [(VTrue, True), (VFalse, True), (VFalse, False), (VFalse, True), (VTrue, True)])
            (example_store, example_page))) ''E'' = Some e' \<and>
      userVotes (hooks (snd (fold perform (serial ''E''
            [(VTrue, True), (VFalse, True), (VFalse, False), (VFalse, True), (VTrue, True)])
            (example_store, example_page)))) ''E'' = Some VTrue \<and>
      true_votes e' = 3 \<and> false_votes e' = 1)"
proof -
  have c: "standing_choice (accepted
      [(VTrue, True), (VFalse, True), (VFalse, False), (VFalse, True), (VTrue, True)]) = Some VTrue"
    by (simp add: standing_choice_def accepted_def)
  from serial_votes_net_effect [OF example_store_E example_page_no_record example_page_idle,
      of "[(VTrue, True), (VFalse, True), (VFalse, False), (VFalse, True), (VTrue, True)]"]
  show ?thesis
    unfolding c
    using example_store_E example_page_no_record example_page_idle
    by (auto simp: held_def example_event_def)
qed

text \<open>
  C2 as stated fails when calls overlap: a click on true and a click on false, both
  before the first call settles, are both taken as new votes, so both counters of the
  example event are up by 1 (3 and 2 from 2 and 1), where the claim allows at most one.
\<close>

theorem overlapping_votes_counterexample:
  "map_option true_votes (iftar_events (fst (fold perform
       [Click ''E'' VTrue True, Click ''E'' VFalse True, Settle 0, Settle 0]
       (example_store, example_page))) ''E'') = Some (true_votes example_event + 1) \<and>
   map_option false_votes (iftar_events (fst (fold perform
       [Click ''E'' VTrue True, Click ''E'' VFalse True, Settle 0, Settle 0]
       (example_store, example_page))) ''E'') = Some (false_votes example_event + 1)"
  by (simp add: handleVote_issue_def updateDoc_def apply_update_def increment_of_def
      vote_field_def example_store_def example_event_def example_page_def initial_app_def)

text \<open>
  C3, as amended. From a state without a local record, a vote for true and, after that
  call has settled, a vote for false leave \<open>true_votes\<close> at its value before the first
  call and \<open>false_votes\<close> one above it; relative to the state between the two calls
  that is \<open>true_votes - 1\<close> and \<open>false_votes + 1\<close>. In the example store with counters 2
  and 1 and no record for \<open>E\<close>, a vote for false gives \<open>false_votes = 2\<close> and the
  record \<open>{E: false}\<close>; a vote for true after it has settled gives \<open>true_votes = 3\<close>,
  \<open>false_votes = 1\<close> and the record \<open>{E: true}\<close>. Both writes are accepted.
\<close>

theorem vote_true_then_false:
  assumes "iftar_events fs eid = Some e" and "userVotes (hooks pg) eid = None"
    and "inflight pg = []"
  shows "(\<exists>e1 e2.
       iftar_events (fst (fold perform (serial eid [(VTrue, True)]) (fs, pg))) eid = Some e1 \<and>
       iftar_events (fst (fold perform (serial eid [(VTrue, True), (VFalse, True)]) (fs, pg))) eid
         = Some e2 \<and>
       true_votes e2 = true_votes e \<and> false_votes e2 = false_votes e + 1 \<and>
       true_votes e2 = true_votes e1 - 1 \<and> false_votes e2 = false_votes e1 + 1 \<and>
       userVotes (hooks (snd (fold perform (serial eid [(VTrue, True), (VFalse, True)]) (fs, pg))))
         eid = Some VFalse) \<and>
     iftar_events (fst (fold perform (serial ''E'' [(VFalse, True)])
         (example_store, example_page))) ''E'' =
       Some (example_event\<lparr> true_votes := 2, false_votes := 2 \<rparr>) \<and>
     userVotes (hooks (snd (fold perform (serial ''E'' [(VFalse, True)])
         (example_store, example_page)))) = [''E'' \<mapsto> VFalse] \<and>
     iftar_events (fst (fold perform (serial ''E'' [(VFalse, True), (VTrue, True)])
         (example_store, example_page))) ''E'' =
       Some (example_event\<lparr> true_votes := 3, false_votes := 1 \<rparr>) \<and>
     userVotes (hooks (snd (fold perform (serial ''E'' [(VFalse, True), (VTrue, True)])
         (example_store, example_page)))) = [''E'' \<mapsto> VTrue]"
proof -
  have first: "handleVote True fs (hooks pg) eid VTrue =
      (fs\<lparr> iftar_events := (iftar_events fs)(eid \<mapsto> apply_update [(vote_field VTrue, 1)] e) \<rparr>,
       (hooks pg)\<lparr> userVotes := (userVotes (hooks pg))(eid \<mapsto> VTrue) \<rparr>)"
    by (rule handleVote_new [OF assms(1,2)])
  have general: "\<exists>e1 e2.
       iftar_events (fst (fold perform (serial eid [(VTrue, True)]) (fs, pg))) eid = Some e1 \<and>
       iftar_events (fst (fold perform (serial eid [(VTrue, True), (VFalse, True)]) (fs, pg))) eid
         = Some e2 \<and>
       true_votes e2 = true_votes e \<and> false_votes e2 = false_votes e + 1 \<and>
       true_votes e2 = true_votes e1 - 1 \<and> false_votes e2 = false_votes e1 + 1 \<and>
       userVotes (hooks (snd (fold perform (serial eid [(VTrue, True), (VFalse, True)]) (fs, pg))))
         eid = Some VFalse"
    unfolding serial_two [OF assms(3)] serial_one [OF assms(3)] first
    by (simp add: handleVote_def updateDoc_def apply_update_def increment_of_def vote_field_def)
  have ex1: "fold perform (serial ''E'' [(VFalse, True)]) (example_store, example_page) =
      (example_store\<lparr> iftar_events := [''E'' \<mapsto> example_event\<lparr> true_votes := 2, false_votes := 2 \<rparr>] \<rparr>,
       example_page\<lparr> hooks := initial_app\<lparr> userVotes := [''E'' \<mapsto> VFalse] \<rparr> \<rparr>)"
    unfolding serial_one [OF example_page_idle]
    by (simp add: handleVote_def updateDoc_def apply_update_def increment_of_def vote_field_def
        example_store_def example_event_def example_page_def initial_app_def)
  have ex2: "fold perform (serial ''E'' [(VFalse, True), (VTrue, True)]) (example_store, example_page) =
      (example_store\<lparr> iftar_events := [''E'' \<mapsto> example_event\<lparr> true_votes := 3, false_votes := 1 \<rparr>] \<rparr>,
       example_page\<lparr> hooks := initial_app\<lparr> userVotes := [''E'' \<mapsto> VTrue] \<rparr> \<rparr>)"
    unfolding serial_two [OF example_page_idle]
    by (simp add: handleVote_def updateDoc_def apply_update_def increment_of_def vote_field_def
        example_store_def example_event_def example_page_def initial_app_def)
  show ?thesis
    using general unfolding ex1 ex2 by simp
qed

theorem vote_true_then_false_witness:
  "iftar_events example_store ''E'' = Some example_event \<and>
   userVotes (hooks example_page) ''E'' = None \<and>
   inflight example_page = [] \<and>
   (\<exists>e2. iftar_events (fst (fold perform (serial ''E'' [(VTrue, True), (VFalse, True)])
        (example_store, example_page))) ''E'' = Some e2 \<and>
      true_votes e2 = 2 \<and> false_votes e2 = 2)"
proof -
  from vote_true_then_false [OF example_store_E example_page_no_record example_page_idle]
  show ?thesis
    using example_store_E example_page_no_record example_page_idle
    by (auto simp: example_event_def)
qed

text \<open>
  C3 as stated fails: after a vote for true and, once it has settled, a vote for false
  in the example store, \<open>true_votes\<close> is 2, its value before the first call, not one
  below it.
\<close>

theorem vote_true_then_false_counterexample:
  "map_option true_votes
     (iftar_events (fst (fold perform (serial ''E'' [(VTrue, True), (VFalse, True)])
        (example_store, example_page))) ''E'')
   \<noteq> Some (true_votes example_event - 1)"
  unfolding serial_two [OF example_page_idle]
  by (simp add: handleVote_def updateDoc_def apply_update_def increment_of_def vote_field_def
      example_store_def example_event_def example_page_def initial_app_def)

text \<open>
  C4, as amended. From a state without a local record for an event of the store,
  voting the same choice twice, the second call issued after the first has settled and
  both writes accepted, returns the store and the page to what they were: both
  counters have their values from before the first call and there is no record for the
  event.
\<close>

theorem vote_twice_restores:
  assumes "iftar_events fs eid = Some e" and "userVotes (hooks pg) eid = None"
    and "inflight pg = []"
  shows "fold perform (serial eid [(type, True), (type, True)]) (fs, pg) = (fs, pg) \<and>
     iftar_events (fst (fold perform (serial eid [(type, True), (type, True)]) (fs, pg))) eid
       = Some e \<and>
     userVotes (hooks (snd (fold perform (serial eid [(type, True), (type, True)]) (fs, pg)))) eid
       = None"
proof -
  have "fold perform (serial eid [(type, True), (type, True)]) (fs, pg) = (fs, pg)"
    unfolding serial_two [OF assms(3)] handleVote_new [OF assms(1,2)]
    using assms
    by (simp add: handleVote_def updateDoc_def apply_update_def increment_of_def vote_field_def
        map_upd_triv fun_upd_idem)
  with assms show ?thesis by simp
qed

theorem vote_twice_restores_witness:
  "iftar_events example_store ''E'' = Some example_event \<and>
   userVotes (hooks example_page) ''E'' = None \<and>
   inflight example_page = [] \<and>
   fold perform (serial ''E'' [(VTrue, True), (VTrue, True)]) (example_store, example_page) =
     (example_store, example_page)"
proof -
  from vote_twice_restores [OF example_store_E example_page_no_record example_page_idle, of VTrue]
  show ?thesis
    using example_store_E example_page_no_record example_page_idle by simp
qed

text \<open>
  C4 as stated fails when the second click comes before the first call has settled:
  both calls read the render without a record and both are new votes, so \<open>true_votes\<close>
  of the example event ends at 4 instead of 2 and the record is \<open>true\<close>.
\<close>

theorem vote_twice_overlapping_counterexample:
  "iftar_events (fst (fold perform
       [Click ''E'' VTrue True, Click ''E'' VTrue True, Settle 0, Settle 0]
       (example_store, example_page))) ''E'' =
     Some (example_event\<lparr> true_votes := 4 \<rparr>) \<and>
   userVotes (hooks (snd (fold perform
       [Click ''E'' VTrue True, Click ''E'' VTrue True, Settle 0, Settle 0]
       (example_store, example_page)))) ''E'' = Some VTrue"
  by (simp add: handleVote_issue_def updateDoc_def apply_update_def increment_of_def
      vote_field_def resolve_def example_store_def example_event_def example_page_def
      initial_app_def)

section \<open>Counters across browsers\<close>

lemma handleVote_frame:
  "x \<noteq> eid \<Longrightarrow>
     iftar_events (fst (handleVote ok fs st eid type)) x = iftar_events fs x \<and>
     userVotes (snd (handleVote ok fs st eid type)) x = userVotes st x"
  by (auto simp: handleVote_def updateDoc_def Let_def split: option.splits)

text \<open>One vote keeps the difference between every counter and the share of the
  voter's record, on its own event and on all others.\<close>

lemma handleVote_balance_all:
  assumes "iftar_events (fst (handleVote ok fs st eid type)) x = Some e'"
  shows "\<exists>e. iftar_events fs x = Some e \<and>
     true_votes e' - held VTrue (userVotes (snd (handleVote ok fs st eid type)) x) =
       true_votes e - held VTrue (userVotes st x) \<and>
     false_votes e' - held VFalse (userVotes (snd (handleVote ok fs st eid type)) x) =
       false_votes e - held VFalse (userVotes st x)"
proof (cases "x = eid")
  case False
  with assms handleVote_frame [OF False, of ok fs st type] show ?thesis by simp
next
  case True
  show ?thesis
  proof (cases "iftar_events fs eid")
    case None
    with assms True show ?thesis by (simp add: handleVote_missing)
  next
    case (Some e)
    from handleVote_balance [OF Some, of ok st type] assms True Some show ?thesis
      by auto
  qed
qed

lemma handleVote_record_keys:
  assumes "userVotes (snd (handleVote ok fs st eid type)) x = Some v"
  shows "(\<exists>w. userVotes st x = Some w) \<or> (\<exists>e. iftar_events fs x = Some e)"
proof (cases "x = eid")
  case False
  with assms handleVote_frame [OF False, of ok fs st type] show ?thesis by simp
next
  case True
  show ?thesis
  proof (cases "iftar_events fs eid")
    case None
    with assms True show ?thesis by (simp add: handleVote_missing)
  next
    case (Some e)
    with True show ?thesis by simp
  qed
qed

lemma tally_nonneg: "0 \<le> tally t eid brs"
  unfolding tally_def by (rule sum_list_nonneg) (auto simp: held_def)

lemma tally_update:
  "b < length brs \<Longrightarrow>
     tally t eid (brs[b := br]) =
       tally t eid brs - held t (effective (brs ! b) eid) + held t (effective br eid)"
  unfolding tally_def
proof (induction brs arbitrary: b)
  case Nil
  then show ?case by simp
next
  case (Cons a brs)
  then show ?case by (cases b) simp_all
qed

lemma tally_unrecorded:
  "(\<And>br. br \<in> set brs \<Longrightarrow> effective br eid = None) \<Longrightarrow> tally t eid brs = 0"
  by (induction brs) (simp_all add: tally_def held_def)

lemma backed_tidy: "backed s \<Longrightarrow> b < length (browsers s) \<Longrightarrow> tidy (browsers s ! b)"
  unfolding backed_def by (blast intro: nth_mem)

lemma backed_record_issued:
  "backed s \<Longrightarrow> br \<in> set (browsers s) \<Longrightarrow> effective br k = Some v \<Longrightarrow> k \<in> issued s"
  unfolding backed_def by blast

lemma backed_store_issued:
  "backed s \<Longrightarrow> iftar_events (store s) k = Some e \<Longrightarrow> k \<in> issued s"
  unfolding backed_def by blast

text \<open>The one place where the list of browsers is taken apart: a browser is replaced
  and the store changes with it, the differences of counters and shares being kept.\<close>

lemma backed_update:
  assumes b: "backed s" and i: "b < length (browsers s)" and t: "tidy br"
    and bal: "\<And>x e'. iftar_events fs x = Some e' \<Longrightarrow>
       \<exists>e. iftar_events (store s) x = Some e \<and>
         true_votes e' - held VTrue (effective br x) =
           true_votes e - held VTrue (effective (browsers s ! b) x) \<and>
         false_votes e' - held VFalse (effective br x) =
           false_votes e - held VFalse (effective (browsers s ! b) x)"
    and keys: "\<And>x v. effective br x = Some v \<Longrightarrow> x \<in> issued s"
  shows "backed (s\<lparr> store := fs, browsers := (browsers s)[b := br] \<rparr>)"
proof -
  have counts: "true_votes e' = tally VTrue x ((browsers s)[b := br]) \<and>
      false_votes e' = tally VFalse x ((browsers s)[b := br])"
    if "iftar_events fs x = Some e'" for x e'
  proof -
    from bal [OF that] obtain e where e: "iftar_events (store s) x = Some e"
      and tv: "true_votes e' - held VTrue (effective br x) =
           true_votes e - held VTrue (effective (browsers s ! b) x)"
      and fv: "false_votes e' - held VFalse (effective br x) =
           false_votes e - held VFalse (effective (browsers s ! b) x)"
      by blast
    from b e have "true_votes e = tally VTrue x (browsers s)"
      and "false_votes e = tally VFalse x (browsers s)"
      by (auto simp: backed_def)
    with tv fv i show ?thesis by (simp add: tally_update)
  qed
  have stored: "x \<in> issued s" if "iftar_events fs x = Some e'" for x e'
    using bal [OF that] backed_store_issued [OF b] by blast
  have each: "tidy c \<and> (\<forall>x v. effective c x = Some v \<longrightarrow> x \<in> issued s)"
    if "c \<in> set ((browsers s)[b := br])" for c
  proof -
    from that have "c = br \<or> c \<in> set (browsers s)"
      using set_update_subset_insert [of "browsers s" b br] by auto
    then show ?thesis
    proof
      assume "c = br"
      with t keys show ?thesis by blast
    next
      assume "c \<in> set (browsers s)"
      with b show ?thesis unfolding backed_def by blast
    qed
  qed
  show ?thesis
    unfolding backed_def using counts stored each by simp
qed

lemma backed_same_store:
  assumes b: "backed s" and i: "b < length (browsers s)" and t: "tidy br"
    and same: "effective br = effective (browsers s ! b)"
  shows "backed (s\<lparr> browsers := (browsers s)[b := br] \<rparr>)"
proof -
  have "backed (s\<lparr> store := store s, browsers := (browsers s)[b := br] \<rparr>)"
  proof (rule backed_update [OF b i t])
    fix x e' assume "iftar_events (store s) x = Some e'"
    then show "\<exists>e. iftar_events (store s) x = Some e \<and>
         true_votes e' - held VTrue (effective br x) =
           true_votes e - held VTrue (effective (browsers s ! b) x) \<and>
         false_votes e' - held VFalse (effective br x) =
           false_votes e - held VFalse (effective (browsers s ! b) x)"
      by (simp add: same)
  next
    fix x v assume "effective br x = Some v"
    with same i show "x \<in> issued s"
      by (auto intro: backed_record_issued [OF b nth_mem])
  qed
  then show ?thesis by simp
qed

lemma effective_no_tab: "tabs br = [] \<Longrightarrow> effective br = saved br"
  by (simp add: effective_def)

lemma effective_one_tab:
  "tabs br = [pg] \<Longrightarrow>
     effective br = (case inflight pg of [Some uv] \<Rightarrow> uv | _ \<Rightarrow> saved br)"
  by (simp add: effective_def)

lemma tidy_one_tab:
  assumes "tidy br" and "k < length (tabs br)"
  obtains pg where "tabs br = [pg]" and "k = 0" and "length (inflight pg) \<le> 1"
    and "userVotes (hooks pg) = saved br"
proof -
  from assms have "length (tabs br) = 1" by (simp add: tidy_def)
  then obtain pg where pg: "tabs br = [pg]"
    by (cases "tabs br") simp_all
  with assms have "k = 0" "length (inflight pg) \<le> 1" "userVotes (hooks pg) = saved br"
    by (simp_all add: tidy_def)
  with pg that show thesis by blast
qed

lemma backed_open:
  assumes b: "backed s" and a: "allowed (Open i) s"
  shows "backed (act (Open i) s)"
proof (cases "i < length (browsers s)")
  case False
  with b show ?thesis by simp
next
  case True
  let ?br = "browsers s ! i"
  from a True have none: "tabs ?br = []" by simp
  have "backed (s\<lparr> browsers := (browsers s)[i := \<lparr> saved = saved ?br, tabs = [mount ?br] \<rparr>] \<rparr>)"
    by (rule backed_same_store [OF b True])
       (simp_all add: tidy_def effective_def mount_def none)
  with True none show ?thesis by simp
qed

lemma backed_close:
  assumes b: "backed s" and a: "allowed (Close i k) s"
  shows "backed (act (Close i k) s)"
proof (cases "has_tab s i k")
  case False
  with b show ?thesis by simp
next
  case True
  let ?br = "browsers s ! i"
  from True have i: "i < length (browsers s)" and k: "k < length (tabs ?br)"
    by (simp_all add: has_tab_def)
  from backed_tidy [OF b i] k obtain pg where tabs: "tabs ?br = [pg]" and k0: "k = 0"
    by (rule tidy_one_tab)
  from a True k0 tabs have idle: "inflight pg = []" by simp
  have "backed (s\<lparr> browsers := (browsers s)[i := \<lparr> saved = saved ?br, tabs = [] \<rparr>] \<rparr>)"
  proof (rule backed_same_store [OF b i])
    show "tidy \<lparr> saved = saved ?br, tabs = [] \<rparr>" by (simp add: tidy_def)
    show "effective \<lparr> saved = saved ?br, tabs = [] \<rparr> = effective ?br"
      by (simp add: effective_no_tab effective_one_tab [OF tabs] idle)
  qed
  with True k0 tabs show ?thesis by simp
qed

lemma backed_other:
  assumes b: "backed s"
  shows "backed (act (Other i k st) s)"
proof (cases "has_tab s i k \<and> userVotes st = userVotes (hooks (tabs (browsers s ! i) ! k))")
  case False
  with b show ?thesis by auto
next
  case True
  let ?br = "browsers s ! i"
  from True have i: "i < length (browsers s)" and k: "k < length (tabs ?br)"
    by (simp_all add: has_tab_def)
  from backed_tidy [OF b i] k obtain pg where tabs: "tabs ?br = [pg]" and k0: "k = 0"
    and len: "length (inflight pg) \<le> 1" and rec: "userVotes (hooks pg) = saved ?br"
    by (rule tidy_one_tab)
  let ?pg = "\<lparr> hooks = st, inflight = inflight pg \<rparr>"
  have "backed (s\<lparr> browsers := (browsers s)[i := \<lparr> saved = saved ?br, tabs = [?pg] \<rparr>] \<rparr>)"
  proof (rule backed_same_store [OF b i])
    show "tidy \<lparr> saved = saved ?br, tabs = [?pg] \<rparr>"
      using True k0 tabs len rec by (simp add: tidy_def)
    have "effective \<lparr> saved = saved ?br, tabs = [?pg] \<rparr> =
        (case inflight pg of [Some uv] \<Rightarrow> uv | _ \<Rightarrow> saved ?br)"
      by (simp add: effective_def split: list.splits option.splits)
    then show "effective \<lparr> saved = saved ?br, tabs = [?pg] \<rparr> = effective ?br"
      by (simp only: effective_one_tab [OF tabs])
  qed
  with True k0 tabs show ?thesis by simp
qed

lemma backed_settle:
  assumes b: "backed s"
  shows "backed (act (Vote i k (Settle j)) s)"
proof (cases "has_tab s i k")
  case False
  with b show ?thesis by simp
next
  case True
  let ?br = "browsers s ! i"
  from True have i: "i < length (browsers s)" and k: "k < length (tabs ?br)"
    by (simp_all add: has_tab_def)
  from backed_tidy [OF b i] k obtain pg where tabs: "tabs ?br = [pg]" and k0: "k = 0"
    and len: "length (inflight pg) \<le> 1" and rec: "userVotes (hooks pg) = saved ?br"
    by (rule tidy_one_tab)
  show ?thesis
  proof (cases "j < length (inflight pg)")
    case False
    have "backed (s\<lparr> browsers := (browsers s)[i := \<lparr> saved = saved ?br, tabs = [pg] \<rparr>] \<rparr>)"
    proof (rule backed_same_store [OF b i])
      show "tidy \<lparr> saved = saved ?br, tabs = [pg] \<rparr>"
        using len rec by (simp add: tidy_def)
      have "effective \<lparr> saved = saved ?br, tabs = [pg] \<rparr> =
          (case inflight pg of [Some uv] \<Rightarrow> uv | _ \<Rightarrow> saved ?br)"
        by (simp add: effective_def split: list.splits option.splits)
      then show "effective \<lparr> saved = saved ?br, tabs = [pg] \<rparr> = effective ?br"
        by (simp only: effective_one_tab [OF tabs])
    qed
    with True False k0 tabs show ?thesis
      by (simp add: settled_record_def)
  next
    case j: True
    with len have j0: "j = 0" by simp
    from j len obtain x where x: "inflight pg = [x]"
      by (cases "inflight pg") auto
    let ?saved = "case x of Some uv \<Rightarrow> uv | None \<Rightarrow> saved ?br"
    let ?pg' = "\<lparr> hooks = resolve x (hooks pg), inflight = [] \<rparr>"
    have "backed (s\<lparr> browsers := (browsers s)[i := \<lparr> saved = ?saved, tabs = [?pg'] \<rparr>] \<rparr>)"
    proof (rule backed_same_store [OF b i])
      show "tidy \<lparr> saved = ?saved, tabs = [?pg'] \<rparr>"
        using rec by (cases x) (simp_all add: tidy_def resolve_def)
      have "effective ?br = ?saved"
        by (simp add: effective_one_tab [OF tabs] x split: option.splits)
      then show "effective \<lparr> saved = ?saved, tabs = [?pg'] \<rparr> = effective ?br"
        by (simp add: effective_def)
    qed
    with True k0 j0 x tabs show ?thesis
      by (simp add: settled_record_def)
  qed
qed

lemma backed_click:
  assumes b: "backed s" and a: "allowed (Vote i k (Click eid type ok)) s"
  shows "backed (act (Vote i k (Click eid type ok)) s)"
proof (cases "has_tab s i k")
  case False
  with b show ?thesis by simp
next
  case True
  let ?br = "browsers s ! i"
  from True have i: "i < length (browsers s)" and k: "k < length (tabs ?br)"
    by (simp_all add: has_tab_def)
  from backed_tidy [OF b i] k obtain pg where tabs: "tabs ?br = [pg]" and k0: "k = 0"
    and rec: "userVotes (hooks pg) = saved ?br"
    by (rule tidy_one_tab)
  from a True k0 tabs have idle: "inflight pg = []" by simp
  let ?is = "handleVote_issue ok (store s) (hooks pg) eid type"
  let ?hv = "handleVote ok (store s) (hooks pg) eid type"
  let ?br' = "\<lparr> saved = saved ?br, tabs = [pg\<lparr> inflight := [snd ?is] \<rparr>] \<rparr>"
  have step: "act (Vote i k (Click eid type ok)) s =
      s\<lparr> store := fst ?is, browsers := (browsers s)[i := ?br'] \<rparr>"
    using True k0 idle tabs by (simp add: settled_record_def split: prod.splits)
  have before: "effective ?br = userVotes (hooks pg)"
    by (simp add: effective_one_tab [OF tabs] idle rec)
  have after: "effective ?br' = userVotes (snd ?hv)"
    using rec
    by (cases "snd ?is") (simp_all add: effective_def handleVote_issue_resolve resolve_def)
  have fst_eq: "fst ?is = fst ?hv"
    by (simp add: handleVote_issue_resolve)
  have "backed (s\<lparr> store := fst ?is, browsers := (browsers s)[i := ?br'] \<rparr>)"
  proof (rule backed_update [OF b i])
    show "tidy ?br'"
      using rec by (simp add: tidy_def)
  next
    fix x e' assume "iftar_events (fst ?is) x = Some e'"
    then show "\<exists>e. iftar_events (store s) x = Some e \<and>
         true_votes e' - held VTrue (effective ?br' x) =
           true_votes e - held VTrue (effective ?br x) \<and>
         false_votes e' - held VFalse (effective ?br' x) =
           false_votes e - held VFalse (effective ?br x)"
      unfolding before after fst_eq by (rule handleVote_balance_all)
  next
    fix x v assume "effective ?br' x = Some v"
    then have "userVotes (snd ?hv) x = Some v" by (simp add: after)
    from handleVote_record_keys [OF this]
    show "x \<in> issued s"
    proof
      assume "\<exists>w. userVotes (hooks pg) x = Some w"
      then obtain w where "effective ?br x = Some w" by (auto simp: before)
      with i show ?thesis by (blast intro: backed_record_issued [OF b nth_mem])
    next
      assume "\<exists>e. iftar_events (store s) x = Some e"
      then show ?thesis by (blast intro: backed_store_issued [OF b])
    qed
  qed
  with step show ?thesis by simp
qed

lemma backed_new_browser: "backed s \<Longrightarrow> backed (act New_browser s)"
  by (auto simp: backed_def tally_def tidy_def effective_def held_def)

lemma backed_add:
  assumes b: "backed s"
  shows "backed (act (Add cfg ok newid ne) s)"
proof (cases "newid \<in> issued s")
  case True
  with b show ?thesis by simp
next
  case False
  have none: "effective br newid = None" if "br \<in> set (browsers s)" for br
  proof (cases "effective br newid")
    case (Some v)
    with False backed_record_issued [OF b that] show ?thesis by blast
  qed simp
  then have zero: "tally t newid (browsers s) = 0" for t
    by (rule tally_unrecorded)
  have absent: "iftar_events (store s) newid = None"
  proof (cases "iftar_events (store s) newid")
    case (Some e)
    with False backed_store_issued [OF b] show ?thesis by blast
  qed simp
  show ?thesis
    using b zero absent False
    by (auto simp: backed_def handleAddEvent_def addDoc_def eventData_def split: if_splits)
qed

lemma backed_delete: "backed s \<Longrightarrow> backed (act (Delete confirmed ok eid) s)"
  by (auto simp: backed_def handleDelete_def deleteDoc_def split: if_splits)

lemma backed_settings: "backed s \<Longrightarrow> backed (act (Settings pw) s)"
  by (simp add: backed_def)

lemma backed_act:
  assumes "backed s" and "allowed a s"
  shows "backed (act a s)"
proof (cases a)
  case New_browser
  with assms show ?thesis by (simp only: backed_new_browser)
next
  case (Open i)
  with assms show ?thesis by (simp only: backed_open)
next
  case (Close i k)
  with assms show ?thesis by (simp only: backed_close)
next
  case (Vote i k v)
  show ?thesis
  proof (cases v)
    case (Click eid type ok)
    with assms Vote show ?thesis by (simp only: backed_click)
  next
    case (Settle j)
    with assms Vote show ?thesis by (simp only: backed_settle)
  qed
next
  case (Add cfg ok newid ne)
  with assms show ?thesis by (simp only: backed_add)
next
  case (Delete confirmed ok eid)
  with assms show ?thesis by (simp only: backed_delete)
next
  case (Settings pw)
  with assms show ?thesis by (simp only: backed_settings)
next
  case (Other i k st)
  with assms show ?thesis by (simp only: backed_other)
qed

lemma backed_start: "backed (start pw)"
  by (simp add: backed_def start_def)

lemma orderly_backed: "backed s \<Longrightarrow> orderly as s \<Longrightarrow> backed (fold act as s)"
  by (induction as arbitrary: s) (simp_all add: backed_act)

lemma backed_nonneg: "backed s \<Longrightarrow> nonneg (store s)"
  by (simp add: backed_def nonneg_def tally_nonneg)

text \<open>
  C5, as amended. In every state reached from the empty collection in orderly use (no
  browser has two pages open, no page takes a vote click while one of its calls is in
  flight, no page is closed with a call in flight), both counters of every event are
  at least 0, and they still are after any further action of that kind, in particular
  after any vote of any page on any event, for either choice, whether or not the store
  accepts the write.
\<close>

theorem orderly_counters_never_negative:
  assumes "orderly as (start pw)"
  shows "nonneg (store (fold act as (start pw))) \<and>
     (\<forall>a. allowed a (fold act as (start pw)) \<longrightarrow>
        nonneg (store (act a (fold act as (start pw)))))"
proof -
  have b: "backed (fold act as (start pw))"
    using backed_start assms by (rule orderly_backed)
  then have "nonneg (store (fold act as (start pw)))"
    by (rule backed_nonneg)
  moreover have "nonneg (store (act a (fold act as (start pw))))"
    if "allowed a (fold act as (start pw))" for a
    using backed_act [OF b that] by (rule backed_nonneg)
  ultimately show ?thesis by blast
qed

lemma example_visit_state:
  "fold act example_visit (start None) =
     \<lparr> store = \<lparr> iftar_events = [''E'' \<mapsto> (eventData example_form)\<lparr> true_votes := 1 \<rparr>],
                 admin_config = None \<rparr>,
       browsers = [\<lparr> saved = [''E'' \<mapsto> VTrue],
                     tabs = [\<lparr> hooks = initial_app\<lparr> userVotes := [''E'' \<mapsto> VTrue] \<rparr>,
                              inflight = [] \<rparr>] \<rparr>],
       issued = {''E''} \<rparr>"
  by (simp add: example_visit_def start_def has_tab_def mount_def settled_record_def
      handleAddEvent_def addDoc_def example_form_def eventData_def handleVote_issue_def
      updateDoc_def apply_update_def increment_of_def vote_field_def resolve_def)

lemma orderly_example_visit: "orderly example_visit (start None)"
  by (simp add: example_visit_def start_def has_tab_def mount_def settled_record_def
      handleAddEvent_def addDoc_def example_form_def eventData_def handleVote_issue_def
      updateDoc_def apply_update_def increment_of_def vote_field_def resolve_def)

theorem orderly_counters_never_negative_witness:
  "orderly example_visit (start None) \<and>
   allowed (Vote 0 0 (Click ''E'' VTrue True)) (fold act example_visit (start None)) \<and>
   nonneg (store (fold act example_visit (start None))) \<and>
   nonneg (store (act (Vote 0 0 (Click ''E'' VTrue True)) (fold act example_visit (start None)))) \<and>
   map_option true_votes (iftar_events (store (act (Vote 0 0 (Click ''E'' VTrue True))
     (fold act example_visit (start None)))) ''E'') = Some 0"
proof -
  have a: "allowed (Vote 0 0 (Click ''E'' VTrue True)) (fold act example_visit (start None))"
    by (simp add: example_visit_state has_tab_def)
  have v: "map_option true_votes (iftar_events (store (act (Vote 0 0 (Click ''E'' VTrue True))
     (fold act example_visit (start None)))) ''E'') = Some 0"
    by (simp add: example_visit_state has_tab_def handleVote_issue_def updateDoc_def
        apply_update_def increment_of_def vote_field_def eventData_def)
  from orderly_counters_never_negative [OF orderly_example_visit] a v show ?thesis
    using orderly_example_visit by blast
qed

text \<open>
  C5 as stated fails. The program's own operations reach a negative counter: a browser
  with a saved vote for true opens a second page, which loads the same record, and the
  vote is withdrawn on both pages; \<open>true_votes\<close> goes from 1 to -1.
\<close>

theorem two_tabs_counterexample:
  "map_option true_votes
     (iftar_events (store (fold act example_two_tabs (start None))) ''E'') = Some (- 1)"
  by (simp add: example_two_tabs_def example_visit_state has_tab_def mount_def
      handleVote_issue_def updateDoc_def apply_update_def increment_of_def vote_field_def
      eventData_def initial_app_def)

text \<open>The same happens on one page when the button of a held vote is clicked twice
  before either call settles, when a page is closed before its withdrawal settles and
  is opened again, and with a record that no counter backs.\<close>

lemma double_click_negative:
  "map_option true_votes
     (iftar_events (store (fold act example_double_click (start None))) ''E'') = Some (- 1)"
  by (simp add: example_double_click_def example_visit_state has_tab_def
      handleVote_issue_def updateDoc_def apply_update_def increment_of_def vote_field_def
      eventData_def initial_app_def)

lemma closed_in_flight_negative:
  "map_option true_votes
     (iftar_events (store (fold act example_closed_in_flight (start None))) ''E'') = Some (- 1)"
  by (simp add: example_closed_in_flight_def example_visit_state has_tab_def mount_def
      settled_record_def handleVote_issue_def updateDoc_def apply_update_def increment_of_def
      vote_field_def eventData_def example_form_def initial_app_def)

lemma handleVote_forged_record_negative:
  "\<not> nonneg (fst (handleVote True
       \<lparr> iftar_events = [''E'' \<mapsto> eventData example_form], admin_config = None \<rparr>
       (initial_app\<lparr> userVotes := [''E'' \<mapsto> VTrue] \<rparr>) ''E'' VTrue))"
  by (simp add: nonneg_def handleVote_def updateDoc_def apply_update_def increment_of_def
      vote_field_def eventData_def)

section \<open>Window selection and failed fetches\<close>

lemma fetchTimings_success:
  "fetchTimings parseTime now (Body 200 (Some today)) (Body 200 (Some tomorrow)) st =
     st\<lparr> timings := finalTimings parseTime now today tomorrow, loadingTimings := False \<rparr>"
  by (simp add: fetchTimings_def fetchTimings_try_def)

lemma fetchTimings_failure:
  "failed resToday \<or> failed resTomorrow \<Longrightarrow>
     fetchTimings parseTime now resToday resTomorrow st = st\<lparr> loadingTimings := False \<rparr>"
  by (cases resToday; cases resTomorrow)
     (auto simp: fetchTimings_def fetchTimings_try_def split: option.splits)

lemma loaded_idem: "\<not> loadingTimings st \<Longrightarrow> st\<lparr> loadingTimings := False \<rparr> = st"
  by (cases st) simp

lemma not_failed: "\<not> failed r \<Longrightarrow> \<exists>d. r = Body 200 (Some d)"
  by (cases r) auto

text \<open>
  C6. When both responses succeed and today's two boundary times are instants, the
  window set for each boundary is tomorrow's exactly when the current instant is
  strictly after today's instant of that boundary, and today's otherwise; the choice
  for one boundary does not look at the other. At the very instant of a boundary,
  today's value is selected for it.
\<close>

theorem window_selection:
  assumes "parseTime (Fajr today) = Some s" and "parseTime (Maghrib today) = Some i"
  shows "timings (fetchTimings parseTime now (Body 200 (Some today)) (Body 200 (Some tomorrow)) st) =
     \<lparr> sahri = Some (if s < now
          then \<lparr> time = Fajr tomorrow, date = readable tomorrow, readableDate = readable tomorrow \<rparr>
          else \<lparr> time = Fajr today, date = readable today, readableDate = readable today \<rparr>),
       iftar = Some (if i < now
          then \<lparr> time = Maghrib tomorrow, date = readable tomorrow, readableDate = readable tomorrow \<rparr>
          else \<lparr> time = Maghrib today, date = readable today, readableDate = readable today \<rparr>) \<rparr> \<and>
     sahri (timings (fetchTimings parseTime s (Body 200 (Some today)) (Body 200 (Some tomorrow)) st)) =
       Some \<lparr> time = Fajr today, date = readable today, readableDate = readable today \<rparr> \<and>
     iftar (timings (fetchTimings parseTime i (Body 200 (Some today)) (Body 200 (Some tomorrow)) st)) =
       Some \<lparr> time = Maghrib today, date = readable today, readableDate = readable today \<rparr>"
  using assms by (simp add: fetchTimings_success finalTimings_def js_after_def)

theorem window_selection_witness:
  "example_parseTime (Fajr example_today) = Some 18000000 \<and>
   example_parseTime (Maghrib example_today) = Some 65400000 \<and>
   timings (fetchTimings example_parseTime 30000000
       (Body 200 (Some example_today)) (Body 200 (Some example_tomorrow)) initial_app) =
     \<lparr> sahri = Some \<lparr> time = ''04:59'', date = ''02 Mar 2026'', readableDate = ''02 Mar 2026'' \<rparr>,
       iftar = Some \<lparr> time = ''18:10'', date = ''01 Mar 2026'', readableDate = ''01 Mar 2026'' \<rparr> \<rparr> \<and>
   sahri (timings (fetchTimings example_parseTime 18000000
       (Body 200 (Some example_today)) (Body 200 (Some example_tomorrow)) initial_app)) =
     Some \<lparr> time = ''05:00'', date = ''01 Mar 2026'', readableDate = ''01 Mar 2026'' \<rparr>"
proof -
  have a: "example_parseTime (Fajr example_today) = Some 18000000"
    by (simp add: example_parseTime_def example_today_def)
  have b: "example_parseTime (Maghrib example_today) = Some 65400000"
    by (simp add: example_parseTime_def example_today_def)
  from window_selection [OF a b, of 30000000 example_tomorrow initial_app] show ?thesis
    using a b by (simp add: example_today_def example_tomorrow_def)
qed

text \<open>
  C7. If the fetch for either day fails, \<^verbatim>\<open>fetchTimings\<close> leaves the timings as they
  were and ends the loading state: a page that was showing a window shows the same
  window, and on first load the placeholders are shown. Whatever the two responses
  are, the timings afterwards are either the previous ones or the ones computed from
  two successful responses, never part of each.
\<close>

theorem fetch_failure_keeps_window:
  assumes "failed resToday \<or> failed resTomorrow"
  shows "fetchTimings parseTime now resToday resTomorrow st = st\<lparr> loadingTimings := False \<rparr> \<and>
     timings (fetchTimings parseTime now resToday resTomorrow st) = timings st \<and>
     (\<not> loadingTimings st \<longrightarrow>
        fetchTimings parseTime now resToday resTomorrow st = st \<and>
        display (fetchTimings parseTime now resToday resTomorrow st) = display st) \<and>
     display (fetchTimings parseTime now resToday resTomorrow initial_app) =
       (Dashes, Dashes, Dashes, Dashes) \<and>
     (\<forall>a b. timings (fetchTimings parseTime now a b st) = timings st \<or>
        (\<exists>today tomorrow. a = Body 200 (Some today) \<and> b = Body 200 (Some tomorrow) \<and>
           timings (fetchTimings parseTime now a b st) = finalTimings parseTime now today tomorrow))"
proof -
  have mix: "timings (fetchTimings parseTime now a b st) = timings st \<or>
        (\<exists>today tomorrow. a = Body 200 (Some today) \<and> b = Body 200 (Some tomorrow) \<and>
           timings (fetchTimings parseTime now a b st) = finalTimings parseTime now today tomorrow)"
    for a b
  proof (cases "failed a \<or> failed b")
    case True
    then show ?thesis by (simp add: fetchTimings_failure)
  next
    case False
    then obtain today tomorrow where "a = Body 200 (Some today)" "b = Body 200 (Some tomorrow)"
      using not_failed [of a] not_failed [of b] by auto
    then show ?thesis by (simp add: fetchTimings_success)
  qed
  have "display (initial_app\<lparr> loadingTimings := False \<rparr>) = (Dashes, Dashes, Dashes, Dashes)"
    by (simp add: display_def initial_app_def time_cell_def date_cell_def)
  with mix show ?thesis
    by (auto simp: fetchTimings_failure [OF assms] loaded_idem)
qed

theorem fetch_failure_keeps_window_witness:
  "(failed Rejected \<or> failed (Body 200 (Some example_tomorrow))) \<and>
   \<not> loadingTimings example_shown \<and>
   fetchTimings example_parseTime 70000000 Rejected (Body 200 (Some example_tomorrow)) example_shown
     = example_shown \<and>
   display (fetchTimings example_parseTime 70000000 Rejected (Body 200 (Some example_tomorrow))
     example_shown) =
     (Shown ''04:59'', Shown ''02 Mar 2026'', Shown ''18:10'', Shown ''01 Mar 2026'')"
proof -
  have a: "failed Rejected \<or> failed (Body 200 (Some example_tomorrow))" by simp
  have b: "\<not> loadingTimings example_shown" by (simp add: example_shown_def)
  have c: "display example_shown =
     (Shown ''04:59'', Shown ''02 Mar 2026'', Shown ''18:10'', Shown ''01 Mar 2026'')"
    by (simp add: example_shown_def display_def time_cell_def date_cell_def finalTimings_def
        js_after_def example_parseTime_def example_today_def example_tomorrow_def)
  from fetch_failure_keeps_window [OF a, of example_parseTime 70000000 example_shown] b
  have "fetchTimings example_parseTime 70000000 Rejected (Body 200 (Some example_tomorrow))
      example_shown = example_shown"
    by blast
  with a b c show ?thesis by simp
qed

section \<open>Page count and clamping\<close>

text \<open>The ceiling of the quotient in integer arithmetic.\<close>

lemma totalPages_div: "totalPages n = (int n + 5) div 6"
proof -
  have "real n / real itemsPerPage = of_int (int n) / of_int 6"
    by (simp add: itemsPerPage_def)
  then have "totalPages n = - (- int n div 6)"
    unfolding totalPages_def by (simp only: ceiling_divide_eq_div)
  then show ?thesis by presburger
qed

lemma totalPages_pos: "0 < n \<Longrightarrow> 1 \<le> totalPages n"
  by (simp add: totalPages_div)

lemma totalPages_0: "totalPages 0 = 0"
  by (simp add: totalPages_div)

lemma clampPage_events: "events (clampPage st) = events st"
  by (simp add: clampPage_def Let_def)

lemma clampPage_empty: "events st = [] \<Longrightarrow> clampPage st = st"
  by (simp add: clampPage_def totalPages_0)

lemma clampPage_lower: "1 \<le> currentPage st \<Longrightarrow> 1 \<le> currentPage (clampPage st)"
  by (auto simp: clampPage_def Let_def)

lemma clampPage_upper:
  "events st \<noteq> [] \<Longrightarrow> currentPage (clampPage st) \<le> totalPages (length (events st))"
  using totalPages_pos [of "length (events st)"]
  by (auto simp: clampPage_def Let_def)

lemma clampPage_idem: "clampPage (clampPage st) = clampPage st"
  by (auto simp: clampPage_def Let_def)

lemma handle_lower: "1 \<le> currentPage st \<Longrightarrow> 1 \<le> currentPage (handle ev st)"
  by (cases ev) auto

lemma step_lower: "1 \<le> currentPage st \<Longrightarrow> 1 \<le> currentPage (step ev st)"
  by (simp add: step_def clampPage_lower handle_lower)

lemma run_lower: "1 \<le> currentPage st \<Longrightarrow> 1 \<le> currentPage (run evs st)"
  by (induction evs arbitrary: st) (simp_all add: step_lower)

lemma unchanged_page: "st\<lparr> events := evs, currentPage := currentPage st \<rparr> = st\<lparr> events := evs \<rparr>"
  by (cases st) simp

lemma step_snapshot:
  "eventsData \<noteq> [] \<Longrightarrow>
     step (Snapshot eventsData) st =
       st\<lparr> events := eventsData,
           currentPage := min (currentPage st) (totalPages (length eventsData)) \<rparr>"
  using totalPages_pos [of "length eventsData"]
  by (auto simp: step_def clampPage_def Let_def min_def unchanged_page)

lemma step_snapshot_empty: "step (Snapshot []) st = st\<lparr> events := [] \<rparr>"
  by (simp add: step_def clampPage_empty)

text \<open>
  C8, as amended. The page count is the ceiling of count / 6, the least number of
  pages of six that hold all items; 13 items give 3 pages. A snapshot with at least
  one event replaces the list and sets the current page to the smaller of its value
  and the page count, so a page within the new range is kept, a page beyond it
  becomes the last page, and the current page, if it was at least 1, lies between 1
  and the page count; a snapshot of 6 events on page 3 moves the viewer to page 1. A
  snapshot without events leaves the current page as it is.
\<close>

theorem page_count_and_clamp:
  "totalPages n = \<lceil>real n / 6\<rceil> \<and>
   int n \<le> int itemsPerPage * totalPages n \<and>
   (\<forall>k. int n \<le> int itemsPerPage * k \<longrightarrow> totalPages n \<le> k) \<and>
   totalPages 13 = 3 \<and>
   (eventsData \<noteq> [] \<longrightarrow>
      step (Snapshot eventsData) st =
        st\<lparr> events := eventsData,
            currentPage := min (currentPage st) (totalPages (length eventsData)) \<rparr>) \<and>
   (eventsData \<noteq> [] \<and> 1 \<le> currentPage st \<longrightarrow>
      1 \<le> currentPage (step (Snapshot eventsData) st) \<and>
      currentPage (step (Snapshot eventsData) st) \<le>
        totalPages (length (events (step (Snapshot eventsData) st)))) \<and>
   (length eventsData = 6 \<and> currentPage st = 3 \<longrightarrow>
      currentPage (step (Snapshot eventsData) st) = 1) \<and>
   step (Snapshot []) st = st\<lparr> events := [] \<rparr>"
proof -
  have "totalPages n = \<lceil>real n / 6\<rceil>"
    by (simp add: totalPages_def itemsPerPage_def)
  moreover have "int n \<le> int itemsPerPage * totalPages n"
    by (simp add: totalPages_div itemsPerPage_def)
  moreover have "\<forall>k. int n \<le> int itemsPerPage * k \<longrightarrow> totalPages n \<le> k"
    by (simp add: totalPages_div itemsPerPage_def) presburger
  moreover have "totalPages 13 = 3"
    by (simp add: totalPages_div)
  moreover have "1 \<le> currentPage (step (Snapshot eventsData) st) \<and>
      currentPage (step (Snapshot eventsData) st) \<le>
        totalPages (length (events (step (Snapshot eventsData) st)))"
    if "eventsData \<noteq> []" "1 \<le> currentPage st"
    using that clampPage_upper [of "st\<lparr> events := eventsData \<rparr>"]
      clampPage_lower [of "st\<lparr> events := eventsData \<rparr>"]
    by (simp add: step_def clampPage_events)
  moreover have "currentPage (step (Snapshot eventsData) st) = 1"
    if "length eventsData = 6" "currentPage st = 3"
    using that by (simp add: step_def clampPage_def totalPages_div)
  ultimately show ?thesis
    using step_snapshot [of eventsData st] step_snapshot_empty [of st] by blast
qed

theorem page_count_and_clamp_witness:
  "replicate 6 (''E'', example_event) \<noteq> [] \<and>
   length (replicate 6 (''E'', example_event)) = 6 \<and>
   1 \<le> currentPage (initial_app\<lparr> currentPage := 3 \<rparr>) \<and>
   currentPage (initial_app\<lparr> currentPage := 3 \<rparr>) = 3 \<and>
   int 13 \<le> int itemsPerPage * 3 \<and>
   totalPages 13 \<le> 3 \<and>
   currentPage (step (Snapshot (replicate 6 (''E'', example_event)))
     (initial_app\<lparr> currentPage := 3 \<rparr>)) = 1"
  using page_count_and_clamp [of 13 "replicate 6 (''E'', example_event)"
      "initial_app\<lparr> currentPage := 3 \<rparr>"]
  by (simp add: itemsPerPage_def totalPages_div)

text \<open>Seven events on page 3 leave the viewer on the last page, page 2, not on
  page 1.\<close>

lemma seven_events_on_page_three:
  "currentPage (step (Snapshot (replicate 7 (''E'', example_event)))
     (initial_app\<lparr> currentPage := 3 \<rparr>)) = 2"
  by (simp add: step_snapshot totalPages_div)

text \<open>
  C8 as stated fails for the count 0: when the last event of a one-event list goes,
  the page stays 1 while the page count is 0, so the page is not within
  \<open>[1, totalPages]\<close>.
\<close>

theorem page_count_and_clamp_counterexample:
  "\<not> (1 \<le> currentPage (step (Snapshot []) (initial_app\<lparr> events := [(''E'', example_event)] \<rparr>)) \<and>
      currentPage (step (Snapshot []) (initial_app\<lparr> events := [(''E'', example_event)] \<rparr>)) \<le>
        totalPages (length (events
          (step (Snapshot []) (initial_app\<lparr> events := [(''E'', example_event)] \<rparr>)))))"
  by (simp add: step_def clampPage_def totalPages_div initial_app_def)

lemma run_example_clicks: "run example_clicks initial_app = initial_app\<lparr> currentPage := 3 \<rparr>"
  by (simp add: example_clicks_def step_def clampPage_def totalPages_div initial_app_def)

text \<open>
  C10. With an empty list the clamp does nothing, so the current page keeps its
  value; every change of the list or the page leaves the current page at least 1,
  as it is initially; and with an empty list the page count is 0, so the current page
  is above it.
\<close>

theorem empty_list_keeps_page:
  "(events st = [] \<longrightarrow> clampPage st = st) \<and>
   (1 \<le> currentPage st \<longrightarrow> 1 \<le> currentPage (step ev st)) \<and>
   (1 \<le> currentPage st \<longrightarrow> 1 \<le> currentPage (run evs st)) \<and>
   1 \<le> currentPage initial_app \<and>
   (events st = [] \<and> 1 \<le> currentPage st \<longrightarrow>
      totalPages (length (events (clampPage st))) = 0 \<and>
      \<not> currentPage (clampPage st) \<le> totalPages (length (events (clampPage st))))"
  by (auto simp: clampPage_empty step_lower run_lower totalPages_0 initial_app_def)

theorem empty_list_keeps_page_witness:
  "events (run example_clicks initial_app) = [] \<and>
   1 \<le> currentPage (run example_clicks initial_app) \<and>
   currentPage (clampPage (run example_clicks initial_app)) = 3 \<and>
   totalPages (length (events (clampPage (run example_clicks initial_app)))) = 0 \<and>
   1 \<le> currentPage (step Prev (run example_clicks initial_app))"
proof -
  have e: "events (run example_clicks initial_app) = []"
    unfolding run_example_clicks by (simp add: initial_app_def)
  have c: "currentPage (run example_clicks initial_app) = 3"
    by (simp add: run_example_clicks)
  from empty_list_keeps_page [of "run example_clicks initial_app" Prev "[]"] show ?thesis
    using e c by auto
qed

section \<open>Rejected administrative actions\<close>

text \<open>
  C9. A login with an entered password other than the stored one alerts
  \<^verbatim>\<open>Incorrect password!\<close> and changes nothing, so the admin flag stays false. A password
  change whose confirmation differs from the new password alerts
  \<^verbatim>\<open>Passwords do not match!\<close> and changes neither the store nor the page state.
\<close>

theorem admin_mismatch_rejected:
  "(\<not> isAdmin st \<and> p \<noteq> adminPassword st \<longrightarrow>
      toggleAdmin (Some p) st = (st, [''Incorrect password!''])) \<and>
   (np \<noteq> [] \<and> confirmPass \<noteq> Some np \<longrightarrow>
      handleChangePassword ok (Some np) confirmPass fs st = (fs, st, [''Passwords do not match!'']))"
  by (auto simp: toggleAdmin_def handleChangePassword_def)

theorem admin_mismatch_rejected_witness:
  "\<not> isAdmin initial_app \<and> ''letmein'' \<noteq> adminPassword initial_app \<and>
   toggleAdmin (Some ''letmein'') initial_app = (initial_app, [''Incorrect password!'']) \<and>
   ''s3cret'' \<noteq> [] \<and> Some ''s3cert'' \<noteq> Some ''s3cret'' \<and>
   handleChangePassword True (Some ''s3cret'') (Some ''s3cert'') example_store initial_app =
     (example_store, initial_app, [''Passwords do not match!''])"
  using admin_mismatch_rejected [of initial_app "''letmein''" "''s3cret''" "Some ''s3cert''"
      True example_store]
  by (simp add: initial_app_def)

end
